theory Spec2Isabelle
  imports Main
begin

section \<open>JavaScript string primitives used by the file manager\<close>

text \<open>
  The navigation code of \<^verbatim>\<open>src/lib/file-manager.js\<close> works on directory paths,
  which are plain strings delimited by \<^verbatim>\<open>/\<close>. It uses \<^verbatim>\<open>lastIndexOf\<close>,
  \<^verbatim>\<open>substring\<close>, \<^verbatim>\<open>includes\<close>, \<^verbatim>\<open>startsWith\<close> and \<^verbatim>\<open>replace\<close> with a string
  pattern. Each is modelled with the behaviour of the JavaScript built-in.
\<close>

fun lastIndexOf :: "string \<Rightarrow> char \<Rightarrow> int" where
  "lastIndexOf [] c = - 1"
| "lastIndexOf (x # xs) c =
     (let i = lastIndexOf xs c
      in if 0 \<le> i then i + 1 else if x = c then 0 else - 1)"

text \<open>\<^verbatim>\<open>s.substring(a, b)\<close>: both indices are clamped to the range of the string and
  swapped when the first exceeds the second.\<close>

definition substring :: "string \<Rightarrow> int \<Rightarrow> int \<Rightarrow> string" where
  "substring s a b =
     (let n = int (length s);
          a' = max 0 (min a n);
          b' = max 0 (min b n);
          lo = min a' b';
          hi = max a' b'
      in take (nat (hi - lo)) (drop (nat lo) s))"

fun startsWith :: "string \<Rightarrow> string \<Rightarrow> bool" where
  "startsWith s [] = True"
| "startsWith [] (y # ys) = False"
| "startsWith (x # xs) (y # ys) = (x = y \<and> startsWith xs ys)"

text \<open>\<^verbatim>\<open>s.includes(t)\<close>: \<open>t\<close> occurs somewhere in \<open>s\<close> as a contiguous substring.\<close>

fun includesStr :: "string \<Rightarrow> string \<Rightarrow> bool" where
  "includesStr [] t = (t = [])"
| "includesStr (x # xs) t = (startsWith (x # xs) t \<or> includesStr xs t)"

text \<open>\<^verbatim>\<open>s.replace(pat, rep)\<close> with a string pattern: only the first occurrence of
  \<open>pat\<close> is replaced.\<close>

fun replace :: "string \<Rightarrow> string \<Rightarrow> string \<Rightarrow> string" where
  "replace [] pat rep = (if pat = [] then rep else [])"
| "replace (x # xs) pat rep =
     (if startsWith (x # xs) pat then rep @ drop (length pat) (x # xs)
      else x # replace xs pat rep)"

text \<open>The idiom \<^verbatim>\<open>path.substring(0, path.lastIndexOf('/'))\<close>, which both loops of the
  navigation use to step from a directory to its parent.\<close>

definition parentPath :: "string \<Rightarrow> string" where
  "parentPath path = substring path 0 (lastIndexOf path CHR ''/'')"

section \<open>The engine state\<close>

text \<open>
  The remote page is driven through puppeteer. What the program asks of the driver is
  recorded, in program order, as a list of actions; arming the request gate is recorded
  as well so that its position relative to the clicks is visible.
\<close>

text \<open>The upload buttons of a product page: the one of the tab \<^verbatim>\<open>data\<close>, and those of the
  tab \<^verbatim>\<open>image\<close>, told apart by their index.\<close>

datatype uploadBtn =
    DataUploadBtn
  | ImageUploadBtn nat

datatype action =
    NavToProductPageTab string
  | WaitForProductUploadBtn nat
  | ClickProductUploadBtn uploadBtn
  | WaitForFrame
  | ClickCloseBtn
  | WaitForSelector string bool
  | ShowOnly string
  | Click string nat
  | CloseDir string
  | Armed "string option" bool
  | WaitForUploadBtn
  | ClickUploadBtn
  | ChooseFile string
  | AcceptDialog string
  | WaitForEntry string
  | ReadEntryIndex string
  | ScrollToEntry int
  | ClickEntry int nat
  | CloseBrowser

datatype error =
    SessionClosed
  | Timeout nat
  | TypeError

text \<open>
  The fields of the \<^verbatim>\<open>Cartmin\<close> object that the file manager reads and writes
  (\<^verbatim>\<open>src/lib/constructor.js\<close>, lines 83 to 92). A puppeteer handle is modelled by whether it
  is non-null. \<open>successMsg\<close> is \<^verbatim>\<open>config.fileManagerOptions.successMsg\<close>.
  The last two fields are not fields of the object: \<open>log\<close> is the history of driver
  actions and \<open>races\<close> counts the acknowledgement races started so far.
\<close>

record cartmin =
  browser :: bool
  fileManagerFrame :: bool
  blockRepetitiveXhr :: bool
  lastXhrPostData :: "string option"
  allowedXhrPostData :: "string option"
  curDirFiles :: "string list option"
  curDirPath :: string
  successMsg :: string
  log :: "action list"
  races :: nat

text \<open>
  What the remote side answers. \<open>clickDelay n\<close> is the time in milliseconds between the
  moment the listener of the \<open>n\<close>-th race of \<^verbatim>\<open>isClickedPromise\<close> is registered and the
  first click event on the directory element after it, or \<open>None\<close> when no click event
  follows; \<open>response\<close> is the
  list of file names of the first non-empty listing response that matches the armed
  payload, or \<open>None\<close> when none arrives before the timeout; \<open>entries\<close> are the trimmed
  texts of the rendered file entries; \<open>dialogs\<close> are the messages of the browser dialogs
  that pop up, in order (when they run out, no dialog appears any more); \<open>existsSync\<close>
  is the local file system. The elements that the driver is asked to wait for or to act
  on are taken to be there: a wait for a directory selector, the frame or a button does
  not fail.
\<close>

record remote =
  clickDelay :: "nat \<Rightarrow> nat option"
  response :: "string list option"
  entries :: "string list"
  dialogs :: "string list"
  existsSync :: "string \<Rightarrow> bool"

definition emit :: "action list \<Rightarrow> cartmin \<Rightarrow> cartmin" where
  "emit as s = s\<lparr>log := log s @ as\<rparr>"

text \<open>The state the constructor leaves (\<^verbatim>\<open>constructor.js\<close>, lines 83 to 92).\<close>

definition newCartmin :: "string \<Rightarrow> cartmin" where
  "newCartmin msg =
     \<lparr>browser = False, fileManagerFrame = False, blockRepetitiveXhr = False,
      lastXhrPostData = None, allowedXhrPostData = None, curDirFiles = None,
      curDirPath = [], successMsg = msg, log = [], races = 0\<rparr>"

text \<open>
  The constructor as a whole (lines 46, 47 and 111), for a well-formed configuration:
  the module keeps the one instance ever constructed, and a later \<^verbatim>\<open>new Cartmin\<close> returns
  that object as it is, whatever its state; only the first construction initialises the
  fields. The first argument is the instance kept by the module, if any.
\<close>

definition constructCartmin :: "cartmin option \<Rightarrow> string \<Rightarrow> cartmin" where
  "constructCartmin kept msg =
     (case kept of
        Some this \<Rightarrow> this
      | None \<Rightarrow> newCartmin msg)"

section \<open>The request gate\<close>

definition allowXhr :: "string option \<Rightarrow> bool \<Rightarrow> cartmin \<Rightarrow> cartmin" where
  "allowXhr allowed block s =
     emit [Armed allowed block]
       (s\<lparr>lastXhrPostData := None, allowedXhrPostData := allowed,
          blockRepetitiveXhr := block\<rparr>)"

definition blockRepXhr :: "bool \<Rightarrow> cartmin \<Rightarrow> cartmin" where
  "blockRepXhr block s = s\<lparr>lastXhrPostData := None, blockRepetitiveXhr := block\<rparr>"

text \<open>
  An intercepted request. \<^verbatim>\<open>req.postData()\<close> is a string or \<^verbatim>\<open>undefined\<close>, while the
  armed payload is a string or \<^verbatim>\<open>null\<close>; \<^verbatim>\<open>===\<close> holds between them only for two equal
  strings, since \<^verbatim>\<open>undefined !== null\<close>.
\<close>

record request =
  resourceType :: string
  url :: string
  httpMethod :: string
  postData :: "string option"

fun strictEq :: "string option \<Rightarrow> string option \<Rightarrow> bool" where
  "strictEq (Some a) (Some b) = (a = b)"
| "strictEq _ _ = False"

datatype verdict = RespondEmpty | Abort | Continue

text \<open>The filter of the three conditions that open the handler: XHR, file-manager-files
  URL, POST. \<open>fmFiles\<close> is \<^verbatim>\<open>paths.fileManagerFiles\<close> of the version configuration.\<close>

definition tracked :: "string \<Rightarrow> request \<Rightarrow> bool" where
  "tracked fmFiles req \<longleftrightarrow>
     resourceType req = ''xhr'' \<and> includesStr (url req) fmFiles \<and> httpMethod req = ''POST''"

definition passOn :: "request \<Rightarrow> verdict" where
  "passOn req =
     (if resourceType req \<in> set [''image'', ''stylesheet''] then Abort else Continue)"

text \<open>The \<^verbatim>\<open>request\<close> handler installed by \<^verbatim>\<open>launch\<close> (\<^verbatim>\<open>constructor.js\<close>, lines 133 to 157).\<close>

definition onRequest :: "string \<Rightarrow> request \<Rightarrow> cartmin \<Rightarrow> verdict \<times> cartmin" where
  "onRequest fmFiles req s =
     (if tracked fmFiles req then
        if \<not> strictEq (postData req) (allowedXhrPostData s) then (RespondEmpty, s)
        else
          let lastPostData = lastXhrPostData s;
              s' = s\<lparr>lastXhrPostData := allowedXhrPostData s\<rparr>
          in if blockRepetitiveXhr s \<and> strictEq (postData req) lastPostData
             then (RespondEmpty, s')
             else (passOn req, s')
      else (passOn req, s))"

text \<open>A sequence of requests, handled one after the other.\<close>

fun onRequests :: "string \<Rightarrow> request list \<Rightarrow> cartmin \<Rightarrow> verdict list" where
  "onRequests fmFiles [] s = []"
| "onRequests fmFiles (r # rs) s =
     (let (v, s') = onRequest fmFiles r s in v # onRequests fmFiles rs s')"

section \<open>Directory navigation\<close>

lemma lastIndexOf_bounds: "- 1 \<le> lastIndexOf s c \<and> lastIndexOf s c < int (length s)"
  by (induction s) (auto simp: Let_def)

lemma parentPath_take: "parentPath path = take (nat (lastIndexOf path CHR ''/'')) path"
  using lastIndexOf_bounds [of path "CHR ''/''"]
  by (auto simp: parentPath_def substring_def Let_def max_def min_def)

lemma parentPath_shorter: "path \<noteq> [] \<Longrightarrow> length (parentPath path) < length path"
proof -
  assume "path \<noteq> []"
  then have "0 < int (length path)" by simp
  with lastIndexOf_bounds [of path "CHR ''/''"]
  have "nat (lastIndexOf path CHR ''/'') < length path" by linarith
  then show ?thesis by (simp add: parentPath_take)
qed

lemma parentPath_Nil [simp]: "parentPath [] = []"
  by (simp add: parentPath_take)

lemma includesStr_Nil [simp]: "includesStr s []"
  by (induction s) auto

text \<open>\<^verbatim>\<open>getDirSelector\<close> (\<^verbatim>\<open>file-manager.js\<close>, lines 49 to 51): the empty path is falsy
  and selects the top directory.\<close>

definition getDirSelector :: "string \<Rightarrow> string" where
  "getDirSelector path =
     (if path \<noteq> [] then ''[directory='' @ [CHR 0x22] @ path @ [CHR 0x22] @ '']''
      else ''[directory]'')"

text \<open>
  \<^verbatim>\<open>isClickedPromise\<close> (lines 57 to 69), called with the frame handle set: a listener
  registered with \<^verbatim>\<open>once: true\<close> resolves the promise to \<^verbatim>\<open>true\<close> at the first click event
  on the element, and a timer of 50 ms removes the listener and resolves it to \<^verbatim>\<open>false\<close>.
  The promise keeps the first of the two resolutions, so the \<open>n\<close>-th race is won exactly
  when the click event of that round arrives before the 50 ms deadline; an event that
  arrives at the deadline or later finds the listener removed.
\<close>

definition isClickedPromise :: "remote \<Rightarrow> nat \<Rightarrow> bool" where
  "isClickedPromise r n =
     (case clickDelay r n of
        None \<Rightarrow> False
      | Some t \<Rightarrow> t < 50)"

text \<open>
  The retry loop of \<^verbatim>\<open>clickDir\<close> (lines 93 to 99): a \<^verbatim>\<open>do ... while (!isClicked)\<close> that
  starts one acknowledgement race and one click per round. It has no bound, so it is a
  partial function: \<open>None\<close> is the loop that never ends.
\<close>

partial_function (option) clickDir_loop ::
    "remote \<Rightarrow> string \<Rightarrow> nat \<Rightarrow> cartmin \<Rightarrow> cartmin option" where
  "clickDir_loop r selector clickCount s =
     (if \<not> isClickedPromise r (races s)
      then clickDir_loop r selector clickCount
             ((emit [Click selector clickCount] s)\<lparr>races := Suc (races s)\<rparr>)
      else Some ((emit [Click selector clickCount] s)\<lparr>races := Suc (races s)\<rparr>))"

text \<open>\<^verbatim>\<open>clickDir\<close> (lines 76 to 100): the top directory is clicked once, without
  confirmation; any other directory is first made the only visible one among its
  siblings and then clicked until the click is acknowledged. The function does not
  check the session: with the frame handle \<^verbatim>\<open>null\<close>, the first use of the handle (line 82
  or line 86) throws a \<^verbatim>\<open>TypeError\<close> before anything is done.\<close>

definition clickDir ::
    "remote \<Rightarrow> string \<Rightarrow> nat \<Rightarrow> cartmin \<Rightarrow> ((error + unit) \<times> cartmin) option" where
  "clickDir r path clickCount s =
     (let selector = getDirSelector path
      in if \<not> fileManagerFrame s then Some (Inl TypeError, s)
         else if path = [] then Some (Inr (), emit [Click selector clickCount] s)
         else map_option (Pair (Inr ()))
                (clickDir_loop r selector clickCount (emit [ShowOnly selector] s)))"

text \<open>\<^verbatim>\<open>closeDir\<close> (lines 109 to 115): the class of the directory element is rewritten from
  open to closed. It does not check the session either: with the frame handle \<^verbatim>\<open>null\<close>,
  line 112 throws a \<^verbatim>\<open>TypeError\<close>.\<close>

definition closeDir :: "string \<Rightarrow> cartmin \<Rightarrow> (error + unit) \<times> cartmin" where
  "closeDir path s =
     (if \<not> fileManagerFrame s then (Inl TypeError, s)
      else (Inr (), emit [CloseDir (getDirSelector path)] s))"

text \<open>
  \<^verbatim>\<open>getDirFilesPromise\<close> (lines 122 to 161): the gate is armed at once with
  \<^verbatim>\<open>'directory=' + path.replace('/', '%2F')\<close>; the promise then resolves with the file names
  of the matching response, after \<^verbatim>\<open>blockRepXhr(false)\<close>, or rejects after \<open>timeout\<close> ms.
\<close>

definition getDirFilesPromise ::
    "remote \<Rightarrow> string \<Rightarrow> nat \<Rightarrow> cartmin \<Rightarrow> (error + string list) \<times> cartmin" where
  "getDirFilesPromise r path timeout s =
     (let s1 = allowXhr (Some (''directory='' @ replace path ''/'' ''%2F'')) True s
      in case response r of
           None \<Rightarrow> (Inl (Timeout timeout), s1)
         | Some names \<Rightarrow> (Inr names, blockRepXhr False s1))"

text \<open>
  The first loop of \<^verbatim>\<open>destroyNav\<close> (lines 214 to 217):
  \<^verbatim>\<open>do { if (this.curDirPath.includes(path)) break; path = parent(path); } while (path);\<close>
\<close>

function destroyNav_search :: "string \<Rightarrow> string \<Rightarrow> string" where
  "destroyNav_search cur path =
     (if includesStr cur path then path
      else if parentPath path \<noteq> [] then destroyNav_search cur (parentPath path)
      else parentPath path)"
  by pat_completeness auto
termination
proof (relation "measure (\<lambda>(cur, path). length path)")
  show "wf (measure (\<lambda>(cur, path). length path))" by simp
next
  fix cur path :: string
  assume "\<not> includesStr cur path"
  then have "path \<noteq> []" by auto
  then show "((cur, parentPath path), (cur, path)) \<in> measure (\<lambda>(cur, path). length path)"
    by (simp add: parentPath_shorter)
qed

text \<open>The second loop of \<^verbatim>\<open>destroyNav\<close> (lines 221 to 224): close the current directory
  and step to its parent until the cursor equals \<open>path\<close>. Nothing bounds it.\<close>

partial_function (option) destroyNav_loop ::
    "string \<Rightarrow> cartmin \<Rightarrow> ((error + unit) \<times> cartmin) option" where
  "destroyNav_loop path s =
     (if curDirPath s \<noteq> path
      then (case closeDir (curDirPath s) s of
              (Inl e, s') \<Rightarrow> Some (Inl e, s')
            | (Inr u, s') \<Rightarrow>
                destroyNav_loop path (s'\<lparr>curDirPath := parentPath (curDirPath s')\<rparr>))
      else Some (Inr (), s))"

text \<open>\<^verbatim>\<open>destroyNav\<close> (lines 211 to 228): the search, the wait for the element of the
  cursor to be visible (line 219, the first use of the frame handle, which throws a
  \<^verbatim>\<open>TypeError\<close> when the handle is \<^verbatim>\<open>null\<close>), the closing loop, and the closing of the
  directory found by the search, which becomes the cursor.\<close>

definition destroyNav :: "string \<Rightarrow> cartmin \<Rightarrow> ((error + unit) \<times> cartmin) option" where
  "destroyNav path s =
     (let path' = destroyNav_search (curDirPath s) path
      in if \<not> fileManagerFrame s then Some (Inl TypeError, s)
         else
           case destroyNav_loop path'
                  (emit [WaitForSelector (getDirSelector (curDirPath s)) True] s) of
             None \<Rightarrow> None
           | Some (Inl e, s2) \<Rightarrow> Some (Inl e, s2)
           | Some (Inr u, s2) \<Rightarrow>
               (case closeDir path' s2 of
                  (Inl e, s3) \<Rightarrow> Some (Inl e, s3)
                | (Inr u', s3) \<Rightarrow> Some (Inr (), s3\<lparr>curDirPath := path'\<rparr>)))"

text \<open>The loop of \<^verbatim>\<open>navInFileManager\<close> that collects the directories to open (lines 182
  to 185); \<^verbatim>\<open>unshift\<close> puts each at the front.\<close>

partial_function (option) nav_paths ::
    "string \<Rightarrow> string \<Rightarrow> string list \<Rightarrow> string list option" where
  "nav_paths path cur paths =
     (if path \<noteq> cur then nav_paths (parentPath path) cur (path # paths) else Some paths)"

text \<open>The \<^verbatim>\<open>for\<close> loop over all but the last directory (lines 189 to 193).\<close>

fun nav_open ::
    "remote \<Rightarrow> string list \<Rightarrow> cartmin \<Rightarrow> ((error + unit) \<times> cartmin) option" where
  "nav_open r [] s = Some (Inr (), s)"
| "nav_open r (p # ps) s =
     (case clickDir r p 2 (emit [WaitForSelector (getDirSelector p) False] s) of
        None \<Rightarrow> None
      | Some (Inl e, s') \<Rightarrow> Some (Inl e, s')
      | Some (Inr u, s') \<Rightarrow> nav_open r ps (s'\<lparr>curDirPath := p\<rparr>))"

text \<open>
  The end of \<^verbatim>\<open>navInFileManager\<close> (lines 195 to 202): the last directory is clicked,
  twice if it is the top directory and once otherwise, while the listing is awaited.
  \<^verbatim>\<open>Promise.all\<close> starts the listing wait and the click together; it rejects as soon as
  the click throws or the listing wait times out, and resolves only when both have
  resolved. Only then are the listing and the cursor assigned. When the listing wait
  times out while the click is never acknowledged, the endless retries are left out of
  the log.
\<close>

definition nav_last ::
    "remote \<Rightarrow> string \<Rightarrow> cartmin \<Rightarrow> ((error + unit) \<times> cartmin) option" where
  "nav_last r lastDirPath s2 =
     (let s3 = emit [WaitForSelector (getDirSelector lastDirPath) False] s2;
          clickCount = (if lastDirPath = [] then 2 else 1);
          (files, s4) = getDirFilesPromise r lastDirPath 30000 s3
      in case clickDir r lastDirPath clickCount s4 of
           Some (Inl e, s5) \<Rightarrow> Some (Inl e, s5)
         | Some (Inr u, s5) \<Rightarrow>
             (case files of
                Inl e \<Rightarrow> Some (Inl e, s5)
              | Inr names \<Rightarrow>
                  Some (Inr (), s5\<lparr>curDirFiles := Some names, curDirPath := lastDirPath\<rparr>))
         | None \<Rightarrow>
             (case files of
                Inl e \<Rightarrow> Some (Inl e, s4)
              | Inr names \<Rightarrow> None))"

text \<open>
  \<^verbatim>\<open>navInFileManager\<close> (lines 169 to 203): the check of the session, the cursor-equality
  return, the disarming of the gate, \<^verbatim>\<open>destroyNav\<close>, the list of directories to open with
  the cursor put in front, and the clicks.
\<close>

definition navInFileManager ::
    "remote \<Rightarrow> string \<Rightarrow> cartmin \<Rightarrow> ((error + unit) \<times> cartmin) option" where
  "navInFileManager r path s =
     (if \<not> fileManagerFrame s then Some (Inl SessionClosed, s)
      else if curDirPath s = path then Some (Inr (), s)
      else
        case destroyNav path (allowXhr None True s) of
          None \<Rightarrow> None
        | Some (Inl e, s1) \<Rightarrow> Some (Inl e, s1)
        | Some (Inr u, s1) \<Rightarrow>
            (case nav_paths path (curDirPath s1) [] of
               None \<Rightarrow> None
             | Some ps \<Rightarrow>
                 (let paths = curDirPath s1 # ps;
                      lastDirPath = last paths
                  in case nav_open r (butlast paths) s1 of
                       None \<Rightarrow> None
                     | Some (Inl e, s2) \<Rightarrow> Some (Inl e, s2)
                     | Some (Inr u, s2) \<Rightarrow> nav_last r lastDirPath s2)))"

text \<open>The directories from \<open>path\<close> up to the top directory, \<open>path\<close> first.\<close>

function pathChain :: "string \<Rightarrow> string list" where
  "pathChain path = (if path = [] then [[]] else path # pathChain (parentPath path))"
  by pat_completeness auto
termination
  by (relation "measure length") (auto simp: parentPath_shorter)

section \<open>Opening and closing the file manager\<close>

text \<open>
  Modelled from the spec: \<^verbatim>\<open>navToProductPageTab\<close> belongs to \<^verbatim>\<open>navigation.js\<close>, a file
  of the repository that is not at hand. The specification counts the navigation between
  pages and tabs among the services of the page layer that the file manager consumes,
  with no hazard of its own, so the selection of a tab is one action of the log, and it
  succeeds.
\<close>

definition navToProductPageTab :: "string \<Rightarrow> cartmin \<Rightarrow> cartmin" where
  "navToProductPageTab tabName s = emit [NavToProductPageTab tabName] s"

text \<open>
  \<^verbatim>\<open>getProductPageUploadBtn\<close> (\<^verbatim>\<open>product.js\<close>, lines 18 to 34): the tab is selected, and
  the \<^verbatim>\<open>switch\<close> returns the upload button of the tab \<^verbatim>\<open>data\<close>, or the button with the
  given index of the tab \<^verbatim>\<open>image\<close> once it is rendered. It has no other case: for any
  other tab name the function returns \<^verbatim>\<open>undefined\<close>, which is \<open>None\<close> here.
\<close>

definition getProductPageUploadBtn ::
    "string \<Rightarrow> nat \<Rightarrow> cartmin \<Rightarrow> uploadBtn option \<times> cartmin" where
  "getProductPageUploadBtn tabName index s =
     (let s1 = navToProductPageTab tabName s
      in if tabName = ''data'' then (Some DataUploadBtn, s1)
         else if tabName = ''image''
         then (Some (ImageUploadBtn index), emit [WaitForProductUploadBtn index] s1)
         else (None, s1))"

text \<open>
  \<^verbatim>\<open>openFileManager\<close> and \<^verbatim>\<open>closeFileManager\<close> (\<^verbatim>\<open>file-manager.js\<close>, lines 20 to 42). With
  a session open, \<^verbatim>\<open>openFileManager\<close> returns at once. Otherwise it asks for the upload
  button and clicks it (line 26); when \<^verbatim>\<open>getProductPageUploadBtn\<close> has returned
  \<^verbatim>\<open>undefined\<close>, that call throws a \<^verbatim>\<open>TypeError\<close> and the frame handle stays \<^verbatim>\<open>null\<close>.
\<close>

definition openFileManager :: "string \<Rightarrow> nat \<Rightarrow> cartmin \<Rightarrow> (error + unit) \<times> cartmin" where
  "openFileManager tabName index s =
     (if fileManagerFrame s then (Inr (), s)
      else
        case getProductPageUploadBtn tabName index s of
          (None, s1) \<Rightarrow> (Inl TypeError, s1)
        | (Some uploadBtn, s1) \<Rightarrow>
            (Inr (),
             (emit [ClickProductUploadBtn uploadBtn, WaitForFrame] s1)
               \<lparr>fileManagerFrame := True\<rparr>))"


text \<open>\<^verbatim>\<open>launch\<close> and \<^verbatim>\<open>close\<close> of \<^verbatim>\<open>constructor.js\<close> (lines 123 to 132 and 200 to 215), on
  the fields kept here; the page handle and the session token are left out.\<close>

definition launch :: "cartmin \<Rightarrow> cartmin" where
  "launch s = (if browser s then s else s\<lparr>browser := True\<rparr>)"

definition close :: "cartmin \<Rightarrow> cartmin" where
  "close s =
     (if \<not> browser s then s
      else (emit [CloseBrowser] s)
             \<lparr>browser := False, fileManagerFrame := False, blockRepetitiveXhr := False,
              lastXhrPostData := None, allowedXhrPostData := None, curDirFiles := None\<rparr>)"

section \<open>Locating a file\<close>

text \<open>
  \<^verbatim>\<open>fileName.match(/(([^\\/\.]+)\.)?([^\\/\.]+)$/)?.[0]\<close>: the match is anchored at the
  end, so it is the suffix that starts at the leftmost position from which the whole
  rest of the string is either one run of name characters, or two such runs with one
  dot between them. A name character is anything but a backslash, a slash and a dot.
\<close>

definition nameChar :: "char \<Rightarrow> bool" where
  "nameChar c \<longleftrightarrow> c \<noteq> CHR 0x5C \<and> c \<noteq> CHR ''/'' \<and> c \<noteq> CHR ''.''"

definition nameRun :: "string \<Rightarrow> bool" where
  "nameRun s \<longleftrightarrow> s \<noteq> [] \<and> list_all nameChar s"

definition matchesToEnd :: "string \<Rightarrow> bool" where
  "matchesToEnd s \<longleftrightarrow>
     nameRun s \<or>
     (nameRun (takeWhile nameChar s) \<and>
      (case dropWhile nameChar s of
         [] \<Rightarrow> False
       | c # rest \<Rightarrow> c = CHR ''.'' \<and> nameRun rest))"

fun clearFileName :: "string \<Rightarrow> string option" where
  "clearFileName [] = None"
| "clearFileName (x # xs) =
     (if matchesToEnd (x # xs) then Some (x # xs) else clearFileName xs)"

text \<open>\<^verbatim>\<open>getFileIndexInFileManagerDOM\<close> (lines 299 to 309), on the trimmed texts of the
  rendered entries: the index of the first entry that starts with the name, plus one;
  zero when there is none.\<close>

fun entryLoop :: "string list \<Rightarrow> string \<Rightarrow> int \<Rightarrow> int" where
  "entryLoop [] fileName i = 0"
| "entryLoop (t # ts) fileName i =
     (if startsWith t fileName then i + 1 else entryLoop ts fileName (i + 1))"

definition getFileIndexInFileManagerDOM :: "string list \<Rightarrow> string \<Rightarrow> int" where
  "getFileIndexInFileManagerDOM list fileName = entryLoop list fileName 0"

text \<open>
  \<^verbatim>\<open>getFileIndexInFileManager\<close> (lines 319 to 330). The cached listing is consulted first;
  only when one of its names starts with the cleared name does the function wait for a
  rendered entry (\<^verbatim>\<open>waitForFunction\<close>, which gives up after puppeteer's 30000 ms) and read
  its index. Calling \<^verbatim>\<open>find\<close> on a listing that is still \<^verbatim>\<open>null\<close> is a type error.
\<close>

definition getFileIndexInFileManager ::
    "remote \<Rightarrow> string \<Rightarrow> cartmin \<Rightarrow> (error + int) \<times> cartmin" where
  "getFileIndexInFileManager r fileName s =
     (case clearFileName fileName of
        None \<Rightarrow> (Inr (- 1), s)
      | Some clearedFileName \<Rightarrow>
          (case curDirFiles s of
             None \<Rightarrow> (Inl TypeError, s)
           | Some files \<Rightarrow>
               (case find (\<lambda>name. startsWith name clearedFileName) files of
                  None \<Rightarrow> (Inr (- 1), s)
                | Some name \<Rightarrow>
                    if name = [] then (Inr (- 1), s)
                    else
                      let s1 = emit [WaitForEntry clearedFileName] s
                      in if getFileIndexInFileManagerDOM (entries r) clearedFileName = 0
                         then (Inl (Timeout 30000), s1)
                         else (Inr (getFileIndexInFileManagerDOM (entries r) clearedFileName - 1),
                               emit [ReadEntryIndex clearedFileName] s1))))"

text \<open>\<^verbatim>\<open>getFileFromFileManager\<close> (lines 340 to 358); the element handle it returns is
  modelled by the index of the entry.\<close>

definition getFileFromFileManager ::
    "remote \<Rightarrow> string \<Rightarrow> cartmin \<Rightarrow> (error + int option) \<times> cartmin" where
  "getFileFromFileManager r fileName s =
     (if \<not> fileManagerFrame s then (Inl SessionClosed, s)
      else
        case getFileIndexInFileManager r fileName s of
          (Inl e, s1) \<Rightarrow> (Inl e, s1)
        | (Inr index, s1) \<Rightarrow>
            if index = - 1 then (Inr None, s1)
            else (Inr (Some index), emit [ScrollToEntry index] s1))"

definition selectFileInFileManager ::
    "remote \<Rightarrow> string \<Rightarrow> cartmin \<Rightarrow> (error + bool) \<times> cartmin" where
  "selectFileInFileManager r fileName s =
     (case getFileFromFileManager r fileName s of
        (Inl e, s1) \<Rightarrow> (Inl e, s1)
      | (Inr None, s1) \<Rightarrow> (Inr False, s1)
      | (Inr (Some index), s1) \<Rightarrow> (Inr True, emit [ClickEntry index 1] s1))"


section \<open>Uploading local files\<close>

text \<open>An element of the \<^verbatim>\<open>paths\<close> array: a string, or any other value, which
  \<^verbatim>\<open>is.string\<close> rejects.\<close>

datatype jsValue = JSString string | JSOther

text \<open>
  \<^verbatim>\<open>closeBrowserDialogPromise\<close> (lines 236 to 253): the next dialog is accepted and its
  message is compared with the configured success message; without a dialog the promise
  rejects after \<open>timeout\<close> ms. The remaining dialogs are returned as well.
\<close>

definition closeBrowserDialogPromise ::
    "string list \<Rightarrow> nat \<Rightarrow> cartmin \<Rightarrow> (error + bool) \<times> string list \<times> cartmin" where
  "closeBrowserDialogPromise ds timeout s =
     (case ds of
        [] \<Rightarrow> (Inl (Timeout timeout), ds, s)
      | msg # ds' \<Rightarrow> (Inr (includesStr msg (successMsg s)), ds', emit [AcceptDialog msg] s))"

text \<open>The \<^verbatim>\<open>for\<close> loop of \<^verbatim>\<open>uploadFilesToFileManager\<close> (lines 270 to 284).\<close>

fun uploadLoop ::
    "(string \<Rightarrow> bool) \<Rightarrow> jsValue list \<Rightarrow> string list \<Rightarrow> string list \<Rightarrow> cartmin \<Rightarrow>
     (error + string list) \<times> cartmin" where
  "uploadLoop ex [] ds uploaded s = (Inr uploaded, s)"
| "uploadLoop ex (JSOther # paths) ds uploaded s = uploadLoop ex paths ds uploaded s"
| "uploadLoop ex (JSString path # paths) ds uploaded s =
     (if \<not> ex path then uploadLoop ex paths ds uploaded s
      else
        case closeBrowserDialogPromise ds 30000 (emit [ClickUploadBtn, ChooseFile path] s) of
          (Inl e, ds', s') \<Rightarrow> (Inl e, s')
        | (Inr isUploaded, ds', s') \<Rightarrow>
            uploadLoop ex paths ds' (if isUploaded then uploaded @ [path] else uploaded) s')"

text \<open>\<^verbatim>\<open>uploadFilesToFileManager\<close> (lines 259 to 287).\<close>

definition uploadFilesToFileManager ::
    "remote \<Rightarrow> jsValue list \<Rightarrow> cartmin \<Rightarrow> (error + string list) \<times> cartmin" where
  "uploadFilesToFileManager r paths s =
     (if \<not> fileManagerFrame s then (Inl SessionClosed, s)
      else uploadLoop (existsSync r) paths (dialogs r) [] (emit [WaitForUploadBtn] s))"

text \<open>The local files that get as far as the file chooser: the strings among the paths
  that exist.\<close>

fun attempted :: "(string \<Rightarrow> bool) \<Rightarrow> jsValue list \<Rightarrow> string list" where
  "attempted ex [] = []"
| "attempted ex (JSOther # paths) = attempted ex paths"
| "attempted ex (JSString path # paths) =
     (if ex path then path # attempted ex paths else attempted ex paths)"

section \<open>Reading the log\<close>

text \<open>The selectors closed and the clicks issued, in the order of the log. A confirmed
  click that needed several attempts shows as a run of equal clicks; \<open>distinctClicks\<close>
  counts each run once.\<close>

fun closes :: "action list \<Rightarrow> string list" where
  "closes [] = []"
| "closes (CloseDir sel # as) = sel # closes as"
| "closes (a # as) = closes as"

fun clicks :: "action list \<Rightarrow> (string \<times> nat) list" where
  "clicks [] = []"
| "clicks (Click sel n # as) = (sel, n) # clicks as"
| "clicks (a # as) = clicks as"

definition distinctClicks :: "action list \<Rightarrow> (string \<times> nat) list" where
  "distinctClicks as = remdups_adj (clicks as)"

text \<open>The local files handed to the file chooser.\<close>

fun chosenFiles :: "action list \<Rightarrow> string list" where
  "chosenFiles [] = []"
| "chosenFiles (ChooseFile path # as) = path # chosenFiles as"
| "chosenFiles (a # as) = chosenFiles as"

text \<open>The runs of equal elements that repeated attempts leave: the \<open>i\<close>-th element
  repeated one more time than the \<open>i\<close>-th number says.\<close>

fun runs :: "'a list \<Rightarrow> nat list \<Rightarrow> 'a list" where
  "runs (x # xs) (n # ns) = replicate (Suc n) x @ runs xs ns"
| "runs _ _ = []"

text \<open>A remote side on which no click stays unacknowledged for ever.\<close>

definition everAcknowledged :: "remote \<Rightarrow> bool" where
  "everAcknowledged r \<longleftrightarrow> (\<forall>n. \<exists>k. isClickedPromise r (n + k))"

section \<open>Example environments\<close>

text \<open>A freshly constructed engine whose file manager has been opened.\<close>

definition openedCartmin :: cartmin where
  "openedCartmin = snd (openFileManager ''data'' 0 (launch (constructCartmin None ''Success'')))"

text \<open>A remote side that acknowledges every click at once and lists two files, and one
  whose listing never arrives.\<close>

definition promptRemote :: remote where
  "promptRemote =
     \<lparr>clickDelay = (\<lambda>n. Some 0), response = Some [''cat.png'', ''dog.jpg''],
      entries = [''cat.png'', ''dog.jpg''], dialogs = [], existsSync = (\<lambda>p. False)\<rparr>"

definition silentRemote :: remote where
  "silentRemote = promptRemote\<lparr>response := None\<rparr>"

text \<open>A remote side whose click event comes 80 ms after the start of the first race, never
  in the second race, and after 10 ms in every later one.\<close>

definition thirdTimeRemote :: remote where
  "thirdTimeRemote =
     promptRemote\<lparr>clickDelay := (\<lambda>n. if n = 0 then Some 80 else if n = 1 then None else Some 10)\<rparr>"

text \<open>An engine whose cursor is at \<^verbatim>\<open>a/b\<close>, with the listing of that directory.\<close>

definition deepCartmin :: cartmin where
  "deepCartmin = openedCartmin\<lparr>curDirPath := ''a/b'', curDirFiles := Some [''old.txt'']\<rparr>"

text \<open>An engine whose cached listing is \<^verbatim>\<open>["cat.png", "dog.jpg"]\<close>.\<close>

definition listedCartmin :: cartmin where
  "listedCartmin = openedCartmin\<lparr>curDirFiles := Some [''cat.png'', ''dog.jpg'']\<rparr>"

text \<open>A remote side where \<^verbatim>\<open>/tmp/missing.png\<close> is the only local file that does not exist
  and every upload is confirmed.\<close>

definition uploadRemote :: remote where
  "uploadRemote =
     promptRemote\<lparr>existsSync := (\<lambda>p. p \<noteq> ''/tmp/missing.png''),
                  dialogs := [''Success: a.png'', ''Success: b.png'']\<rparr>"

text \<open>A listing request of the file manager with the given payload.\<close>

definition listingRequest :: "string \<Rightarrow> request" where
  "listingRequest payload =
     \<lparr>resourceType = ''xhr'', url = ''http://shop/admin/index.php?route=common/filemanager/files'',
      httpMethod = ''POST'', postData = Some payload\<rparr>"


section \<open>Facts about paths\<close>

declare clickDir_loop.simps [code] destroyNav_loop.simps [code] nav_paths.simps [code]

declare pathChain.simps [simp del] destroyNav_search.simps [simp del]

lemma pathChain_Cons:
  "pathChain path = path # (if path = [] then [] else pathChain (parentPath path))"
  by (subst pathChain.simps) simp

lemma pathChain_self [simp]: "path \<in> set (pathChain path)"
  by (subst pathChain.simps) simp

lemma pathChain_root [simp]: "[] \<in> set (pathChain path)"
  by (induction path rule: pathChain.induct) (subst pathChain.simps, simp)

lemma pathChain_parent: "set (pathChain (parentPath path)) \<subseteq> set (pathChain path)"
  by (subst (2) pathChain.simps) (auto simp: pathChain.simps [of "[]"])

lemma pathChain_length: "p \<in> set (pathChain path) \<Longrightarrow> length p \<le> length path"
proof (induction path rule: pathChain.induct)
  case (1 path)
  show ?case
  proof (cases "path = []")
    case True
    with 1(2) show ?thesis by (simp add: pathChain.simps [of "[]"])
  next
    case False
    with 1(2) have "p = path \<or> p \<in> set (pathChain (parentPath path))"
      by (subst (asm) pathChain.simps) simp
    then show ?thesis
      using 1(1) [OF False] parentPath_shorter [OF False] by auto
  qed
qed

lemma pathChain_distinct: "distinct (pathChain path)"
proof (induction path rule: pathChain.induct)
  case (1 path)
  show ?case
  proof (cases "path = []")
    case True
    then show ?thesis by (simp add: pathChain.simps [of "[]"])
  next
    case False
    have "path \<notin> set (pathChain (parentPath path))"
      using pathChain_length [of path "parentPath path"] parentPath_shorter [OF False] by auto
    with 1 [OF False] False show ?thesis by (subst pathChain.simps) simp
  qed
qed

lemma destroyNav_search_chain: "destroyNav_search cur path \<in> set (pathChain path)"
proof (induction cur path rule: destroyNav_search.induct)
  case (1 cur path)
  show ?case
  proof (cases "includesStr cur path")
    case True
    then show ?thesis by (subst destroyNav_search.simps) simp
  next
    case False
    show ?thesis
    proof (cases "parentPath path = []")
      case True
      with False show ?thesis by (subst destroyNav_search.simps) simp
    next
      case nonempty: False
      from 1 [OF False nonempty] pathChain_parent [of path] False nonempty
      show ?thesis by (subst destroyNav_search.simps) auto
    qed
  qed
qed


section \<open>The loops of the navigation\<close>

lemma takeWhile_pathChain_self [simp]: "takeWhile (\<lambda>p. p \<noteq> path) (pathChain path) = []"
  by (subst pathChain_Cons) simp

lemma takeWhile_pathChain_step:
  "cur \<noteq> path \<Longrightarrow> path \<in> set (pathChain cur) \<Longrightarrow>
   cur \<noteq> [] \<and> path \<in> set (pathChain (parentPath cur)) \<and>
   takeWhile (\<lambda>p. p \<noteq> path) (pathChain cur) =
     cur # takeWhile (\<lambda>p. p \<noteq> path) (pathChain (parentPath cur))"
  by (subst (asm) pathChain.simps, subst (2) pathChain.simps) (auto split: if_splits)

text \<open>The closing loop returns exactly when its goal lies on the chain of the cursor.\<close>

lemma closeDir_open:
  "fileManagerFrame s \<Longrightarrow> closeDir path s = (Inr (), emit [CloseDir (getDirSelector path)] s)"
  by (simp add: closeDir_def)

lemma destroyNav_loop_returns:
  "path \<in> set (pathChain (curDirPath s)) \<Longrightarrow> fileManagerFrame s \<Longrightarrow>
   destroyNav_loop path s =
     Some (Inr (),
           s\<lparr>curDirPath := path,
              log := log s @ map (\<lambda>p. CloseDir (getDirSelector p))
                              (takeWhile (\<lambda>p. p \<noteq> path) (pathChain (curDirPath s)))\<rparr>)"
proof (induction "curDirPath s" arbitrary: s rule: pathChain.induct)
  case 1
  show ?case
  proof (cases "curDirPath s = path")
    case True
    then show ?thesis by (subst destroyNav_loop.simps) simp
  next
    case False
    from takeWhile_pathChain_step [OF False "1.prems"(1)]
    have ne: "curDirPath s \<noteq> []"
      and mem: "path \<in> set (pathChain (parentPath (curDirPath s)))"
      and tw: "takeWhile (\<lambda>p. p \<noteq> path) (pathChain (curDirPath s)) =
        curDirPath s # takeWhile (\<lambda>p. p \<noteq> path) (pathChain (parentPath (curDirPath s)))"
      by simp_all
    let ?s1 = "(emit [CloseDir (getDirSelector (curDirPath s))] s)
                 \<lparr>curDirPath := parentPath (curDirPath s)\<rparr>"
    have cur1: "parentPath (curDirPath s) = curDirPath ?s1" by simp
    from "1.prems"(2) have frame1: "fileManagerFrame ?s1" by (simp add: emit_def)
    from mem have mem1: "path \<in> set (pathChain (curDirPath ?s1))" by simp
    from "1.hyps" [OF ne cur1 mem1 frame1]
    have "destroyNav_loop path ?s1 =
      Some (Inr (),
            ?s1\<lparr>curDirPath := path,
              log := log ?s1 @ map (\<lambda>p. CloseDir (getDirSelector p))
                              (takeWhile (\<lambda>p. p \<noteq> path) (pathChain (curDirPath ?s1)))\<rparr>)"
      by simp
    with False tw "1.prems"(2) show ?thesis
      by (subst destroyNav_loop.simps) (simp add: closeDir_open emit_def)
  qed
qed

lemma destroyNav_loop_Some:
  assumes "destroyNav_loop path s = Some res"
  shows "fileManagerFrame s \<longrightarrow> path \<in> set (pathChain (curDirPath s))"
proof (rule destroyNav_loop.raw_induct
    [where P = "\<lambda>path s res. fileManagerFrame s \<longrightarrow> path \<in> set (pathChain (curDirPath s))",
     OF _ assms])
  fix f path s and res :: "(error + unit) \<times> cartmin"
  assume IH: "\<And>path s y. f path s = Some y \<Longrightarrow>
      fileManagerFrame s \<longrightarrow> path \<in> set (pathChain (curDirPath s))"
    and step: "(if curDirPath s \<noteq> path
      then (case closeDir (curDirPath s) s of
              (Inl e, s') \<Rightarrow> Some (Inl e, s')
            | (Inr u, s') \<Rightarrow> f path (s'\<lparr>curDirPath := parentPath (curDirPath s')\<rparr>))
      else Some (Inr (), s)) = Some res"
  show "fileManagerFrame s \<longrightarrow> path \<in> set (pathChain (curDirPath s))"
  proof
    assume frame: "fileManagerFrame s"
    show "path \<in> set (pathChain (curDirPath s))"
    proof (cases "curDirPath s = path")
      case True
      then show ?thesis by simp
    next
      case False
      let ?s1 = "(emit [CloseDir (getDirSelector (curDirPath s))] s)
                   \<lparr>curDirPath := parentPath (curDirPath s)\<rparr>"
      from False step frame have "f path ?s1 = Some res"
        by (simp add: closeDir_open emit_def)
      from IH [OF this] frame
      have "path \<in> set (pathChain (parentPath (curDirPath s)))" by (simp add: emit_def)
      with pathChain_parent show ?thesis by blast
    qed
  qed
qed

lemma nav_paths_returns:
  "cur \<in> set (pathChain path) \<Longrightarrow>
   nav_paths path cur paths =
     Some (rev (takeWhile (\<lambda>p. p \<noteq> cur) (pathChain path)) @ paths)"
proof (induction path arbitrary: paths rule: pathChain.induct)
  case (1 path)
  show ?case
  proof (cases "path = cur")
    case True
    then show ?thesis by (subst nav_paths.simps) simp
  next
    case False
    from takeWhile_pathChain_step [OF False "1.prems"]
    have ne: "path \<noteq> []"
      and mem: "cur \<in> set (pathChain (parentPath path))"
      and tw: "takeWhile (\<lambda>p. p \<noteq> cur) (pathChain path) =
        path # takeWhile (\<lambda>p. p \<noteq> cur) (pathChain (parentPath path))"
      by simp_all
    from "1.IH" [OF ne mem, of "path # paths"] False tw
    show ?thesis by (subst nav_paths.simps) simp
  qed
qed

text \<open>The retry loop returns as soon as one race is won, after one click per race.\<close>

lemma clickDir_loop_returns:
  "isClickedPromise r (races s + k) \<Longrightarrow>
   \<exists>j\<le>k. clickDir_loop r sel c s =
     Some (s\<lparr>log := log s @ replicate (Suc j) (Click sel c), races := races s + Suc j\<rparr>)"
proof (induction k arbitrary: s)
  case 0
  then show ?case by (subst clickDir_loop.simps) (simp add: emit_def)
next
  case (Suc k)
  show ?case
  proof (cases "isClickedPromise r (races s)")
    case True
    then have "clickDir_loop r sel c s =
      Some (s\<lparr>log := log s @ replicate (Suc 0) (Click sel c), races := races s + Suc 0\<rparr>)"
      by (subst clickDir_loop.simps) (simp add: emit_def)
    then show ?thesis by blast
  next
    case False
    let ?s1 = "(emit [Click sel c] s)\<lparr>races := Suc (races s)\<rparr>"
    from Suc.prems have "isClickedPromise r (races ?s1 + k)" by simp
    from Suc.IH [OF this] obtain j where j: "j \<le> k"
      and run: "clickDir_loop r sel c ?s1 =
        Some (?s1\<lparr>log := log ?s1 @ replicate (Suc j) (Click sel c),
                  races := races ?s1 + Suc j\<rparr>)"
      by blast
    from False run have "clickDir_loop r sel c s =
      Some (s\<lparr>log := log s @ replicate (Suc (Suc j)) (Click sel c),
              races := races s + Suc (Suc j)\<rparr>)"
      by (subst clickDir_loop.simps) (simp add: emit_def)
    with j show ?thesis by (intro exI [of _ "Suc j"]) simp
  qed
qed

lemma clickDir_loop_Some:
  assumes "clickDir_loop r sel c s = Some s'"
  shows "\<exists>j. s' = s\<lparr>log := log s @ replicate (Suc j) (Click sel c),
                      races := races s + Suc j\<rparr>"
proof (rule clickDir_loop.raw_induct
    [where P = "\<lambda>r sel c s s'. \<exists>j. s' = s\<lparr>log := log s @ replicate (Suc j) (Click sel c),
                      races := races s + Suc j\<rparr>", OF _ assms])
  fix f r sel c s and s' :: cartmin
  assume IH: "\<And>r sel c s y. f r sel c s = Some y \<Longrightarrow>
      \<exists>j. y = s\<lparr>log := log s @ replicate (Suc j) (Click sel c), races := races s + Suc j\<rparr>"
    and step: "(if \<not> isClickedPromise r (races s)
      then f r sel c ((emit [Click sel c] s)\<lparr>races := Suc (races s)\<rparr>)
      else Some ((emit [Click sel c] s)\<lparr>races := Suc (races s)\<rparr>)) = Some s'"
  show "\<exists>j. s' = s\<lparr>log := log s @ replicate (Suc j) (Click sel c), races := races s + Suc j\<rparr>"
  proof (cases "isClickedPromise r (races s)")
    case True
    with step have "s' = s\<lparr>log := log s @ replicate (Suc 0) (Click sel c),
                           races := races s + Suc 0\<rparr>"
      by (simp add: emit_def)
    then show ?thesis by blast
  next
    case False
    let ?s1 = "(emit [Click sel c] s)\<lparr>races := Suc (races s)\<rparr>"
    from False step have "f r sel c ?s1 = Some s'" by simp
    from IH [OF this] obtain j where
      "s' = ?s1\<lparr>log := log ?s1 @ replicate (Suc j) (Click sel c), races := races ?s1 + Suc j\<rparr>"
      by blast
    then have "s' = s\<lparr>log := log s @ replicate (Suc (Suc j)) (Click sel c),
                         races := races s + Suc (Suc j)\<rparr>"
      by (simp add: emit_def)
    then show ?thesis by blast
  qed
qed


section \<open>Reading the log of a navigation\<close>

lemma closes_append [simp]: "closes (as @ bs) = closes as @ closes bs"
  by (induction as rule: closes.induct) simp_all

lemma clicks_append [simp]: "clicks (as @ bs) = clicks as @ clicks bs"
  by (induction as rule: clicks.induct) simp_all

lemma closes_replicate_Click [simp]: "closes (replicate n (Click sel c)) = []"
  by (induction n) simp_all

lemma clicks_replicate_Click [simp]: "clicks (replicate n (Click sel c)) = replicate n (sel, c)"
  by (induction n) simp_all

lemma closes_map_CloseDir [simp]: "closes (map (\<lambda>p. CloseDir (f p)) ps) = map f ps"
  by (induction ps) simp_all

lemma clicks_map_CloseDir [simp]: "clicks (map (\<lambda>p. CloseDir (f p)) ps) = []"
  by (induction ps) simp_all

lemma runs_append:
  "length ns = length xs \<Longrightarrow> runs (xs @ ys) (ns @ ms) = runs xs ns @ runs ys ms"
  by (induction xs ns rule: runs.induct) simp_all

lemma set_runs: "set (runs xs ns) \<subseteq> set xs"
  by (induction xs ns rule: runs.induct) auto

lemma remdups_adj_runs:
  "distinct xs \<Longrightarrow> length ns = length xs \<Longrightarrow> remdups_adj (runs xs ns) = xs"
proof (induction xs ns rule: runs.induct)
  case (1 x xs n ns)
  then have IH: "remdups_adj (runs xs ns) = xs" by simp
  from 1(2) set_runs [of xs ns] have "x \<notin> set (runs xs ns)" by auto
  then have "dropWhile (\<lambda>y. y = x) (runs xs ns) = runs xs ns"
    by (cases "runs xs ns") auto
  then have "dropWhile (\<lambda>y. y = x) (replicate n x @ runs xs ns) = runs xs ns"
    by (simp add: dropWhile_append)
  with IH show ?case by (simp add: remdups_adj_Cons')
qed simp_all

lemma getDirSelector_inj: "getDirSelector p = getDirSelector q \<Longrightarrow> p = q"
  by (auto simp: getDirSelector_def split: if_splits)

section \<open>The confirmed click and the opening loop\<close>

lemma clickDir_returns:
  assumes "everAcknowledged r" and "fileManagerFrame s"
  shows "\<exists>acts m n. clickDir r p c s = Some (Inr (), s\<lparr>log := log s @ acts, races := m\<rparr>)
           \<and> closes acts = [] \<and> clicks acts = replicate (Suc n) (getDirSelector p, c)"
proof (cases "p = []")
  case True
  have "clickDir r p c s =
      Some (Inr (), s\<lparr>log := log s @ [Click (getDirSelector p) c], races := races s\<rparr>)"
    using True assms(2) by (simp add: clickDir_def emit_def Let_def)
  moreover have "closes [Click (getDirSelector p) c] = []
      \<and> clicks [Click (getDirSelector p) c] = replicate (Suc 0) (getDirSelector p, c)"
    by simp
  ultimately show ?thesis by blast
next
  case False
  let ?s0 = "emit [ShowOnly (getDirSelector p)] s"
  from assms(1) obtain k where "isClickedPromise r (races ?s0 + k)"
    unfolding everAcknowledged_def by blast
  from clickDir_loop_returns [OF this, of "getDirSelector p" c] obtain j where
    "clickDir_loop r (getDirSelector p) c ?s0 =
       Some (?s0\<lparr>log := log ?s0 @ replicate (Suc j) (Click (getDirSelector p) c),
                 races := races ?s0 + Suc j\<rparr>)"
    by blast
  with False assms(2) have "clickDir r p c s =
      Some (Inr (), s\<lparr>log := log s @ (ShowOnly (getDirSelector p) #
                    replicate (Suc j) (Click (getDirSelector p) c)),
              races := races s + Suc j\<rparr>)"
    by (simp add: clickDir_def emit_def Let_def)
  moreover have "closes (ShowOnly (getDirSelector p) #
        replicate (Suc j) (Click (getDirSelector p) c)) = []
      \<and> clicks (ShowOnly (getDirSelector p) # replicate (Suc j) (Click (getDirSelector p) c)) =
          replicate (Suc j) (getDirSelector p, c)"
    using closes_replicate_Click [of "Suc j"] clicks_replicate_Click [of "Suc j"]
    by (simp del: replicate_Suc closes_replicate_Click clicks_replicate_Click)
  ultimately show ?thesis by blast
qed

lemma clickDir_closed: "\<not> fileManagerFrame s \<Longrightarrow> clickDir r p c s = Some (Inl TypeError, s)"
  by (simp add: clickDir_def Let_def)

lemma clickDir_frame:
  assumes "clickDir r p c s = Some (Inr u, s')"
  shows "fileManagerFrame s"
proof (rule ccontr)
  assume "\<not> fileManagerFrame s"
  from clickDir_closed [OF this, of r p c] assms show False by simp
qed

lemma clickDir_not_Inl:
  assumes "fileManagerFrame s"
  shows "clickDir r p c s \<noteq> Some (Inl e, s')"
  using assms by (auto simp: clickDir_def Let_def)

lemma clickDir_Inr:
  assumes "clickDir r p c s = Some (Inr u, s')"
  shows "\<exists>acts m. s' = s\<lparr>log := log s @ acts, races := m\<rparr>"
proof (cases "p = []")
  case True
  note frame = clickDir_frame [OF assms]
  have "s\<lparr>log := log s @ [Click (getDirSelector p) c], races := races s\<rparr> =
      s\<lparr>log := log s @ [Click (getDirSelector p) c]\<rparr>"
    by simp
  moreover from True frame assms have "s' = s\<lparr>log := log s @ [Click (getDirSelector p) c]\<rparr>"
    by (simp add: clickDir_def emit_def Let_def)
  ultimately have "s' = s\<lparr>log := log s @ [Click (getDirSelector p) c], races := races s\<rparr>"
    by (rule ssubst)
  then show ?thesis by blast
next
  case False
  note frame = clickDir_frame [OF assms]
  let ?s0 = "emit [ShowOnly (getDirSelector p)] s"
  from False frame assms have "clickDir_loop r (getDirSelector p) c ?s0 = Some s'"
    by (auto simp: clickDir_def Let_def)
  from clickDir_loop_Some [OF this] obtain j where
    "s' = ?s0\<lparr>log := log ?s0 @ replicate (Suc j) (Click (getDirSelector p) c),
               races := races ?s0 + Suc j\<rparr>"
    by blast
  then have "s' = s\<lparr>log := log s @ (ShowOnly (getDirSelector p) #
                 replicate (Suc j) (Click (getDirSelector p) c)), races := races s + Suc j\<rparr>"
    by (simp add: emit_def)
  then show ?thesis by blast
qed

lemma nav_open_returns:
  assumes "everAcknowledged r"
  shows "fileManagerFrame s \<Longrightarrow>
         \<exists>acts m ns. nav_open r ps s =
             Some (Inr (),
                   s\<lparr>log := log s @ acts, races := m, curDirPath := last (curDirPath s # ps)\<rparr>)
           \<and> closes acts = [] \<and> length ns = length ps
           \<and> clicks acts = runs (map (\<lambda>p. (getDirSelector p, 2)) ps) ns"
proof (induction ps arbitrary: s)
  case Nil
  have "nav_open r [] s = Some (Inr (), s\<lparr>log := log s @ [], races := races s,
      curDirPath := last (curDirPath s # [])\<rparr>)" by simp
  moreover have "closes [] = [] \<and> length ([]::nat list) = length ([]::string list)
      \<and> clicks [] = runs (map (\<lambda>p. (getDirSelector p, 2)) []) []" by simp
  ultimately show ?case by blast
next
  case (Cons p ps)
  let ?s0 = "emit [WaitForSelector (getDirSelector p) False] s"
  from Cons.prems have frame0: "fileManagerFrame ?s0" by (simp add: emit_def)
  from clickDir_returns [OF assms frame0, of p 2] obtain acts m n where
    click: "clickDir r p 2 ?s0 = Some (Inr (), ?s0\<lparr>log := log ?s0 @ acts, races := m\<rparr>)"
    and a1: "closes acts = []" and a2: "clicks acts = replicate (Suc n) (getDirSelector p, 2)"
    by blast
  let ?s1 = "(?s0\<lparr>log := log ?s0 @ acts, races := m\<rparr>)\<lparr>curDirPath := p\<rparr>"
  from Cons.prems have frame1: "fileManagerFrame ?s1" by (simp add: emit_def)
  from Cons.IH [OF frame1] obtain acts' m' ns where
    rest: "nav_open r ps ?s1 =
       Some (Inr (),
             ?s1\<lparr>log := log ?s1 @ acts', races := m', curDirPath := last (curDirPath ?s1 # ps)\<rparr>)"
    and b1: "closes acts' = []" and b2: "length ns = length ps"
    and b3: "clicks acts' = runs (map (\<lambda>p. (getDirSelector p, 2)) ps) ns"
    by blast
  from click rest have "nav_open r (p # ps) s =
      Some (Inr (),
            s\<lparr>log := log s @ (WaitForSelector (getDirSelector p) False # acts @ acts'),
              races := m', curDirPath := last (curDirPath s # p # ps)\<rparr>)"
    by (simp add: emit_def)
  moreover from a1 b1 have "closes (WaitForSelector (getDirSelector p) False # acts @ acts') = []"
    by simp
  moreover from b2 have "length (n # ns) = length (p # ps)" by simp
  moreover from a2 b3 have "clicks (WaitForSelector (getDirSelector p) False # acts @ acts') =
      runs (map (\<lambda>p. (getDirSelector p, 2)) (p # ps)) (n # ns)"
    by simp
  ultimately show ?case by blast
qed

lemma nav_open_Cons_cases:
  assumes "nav_open r (p # ps) s = Some (res, s')"
    and "fileManagerFrame s"
  shows "\<exists>u s1. clickDir r p 2 (emit [WaitForSelector (getDirSelector p) False] s) = Some (Inr u, s1)
           \<and> nav_open r ps (s1\<lparr>curDirPath := p\<rparr>) = Some (res, s')"
proof -
  let ?s0 = "emit [WaitForSelector (getDirSelector p) False] s"
  from assms(2) have frame0: "fileManagerFrame ?s0" by (simp add: emit_def)
  show ?thesis
  proof (cases "clickDir r p 2 ?s0")
    case None
    with assms(1) show ?thesis by simp
  next
    case (Some a)
    obtain x s1 where a: "a = (x, s1)" by (cases a)
    show ?thesis
    proof (cases x)
      case (Inl e)
      with Some a clickDir_not_Inl [OF frame0, of r p 2 e s1] show ?thesis by simp
    next
      case (Inr u)
      with Some a assms(1) show ?thesis by simp
    qed
  qed
qed

lemma nav_open_Some:
  "fileManagerFrame s \<Longrightarrow> nav_open r ps s = Some (res, s') \<Longrightarrow>
   res = Inr () \<and>
   (\<exists>acts m. s' = s\<lparr>log := log s @ acts, races := m, curDirPath := last (curDirPath s # ps)\<rparr>)"
proof (induction ps arbitrary: s)
  case Nil
  then have "res = Inr ()"
    and "s' = s\<lparr>log := log s @ [], races := races s, curDirPath := last (curDirPath s # [])\<rparr>"
    by simp_all
  then show ?case by blast
next
  case (Cons p ps)
  let ?s0 = "emit [WaitForSelector (getDirSelector p) False] s"
  from nav_open_Cons_cases [OF Cons.prems(2) Cons.prems(1)] obtain u s1 where
    click: "clickDir r p 2 ?s0 = Some (Inr u, s1)"
    and rest: "nav_open r ps (s1\<lparr>curDirPath := p\<rparr>) = Some (res, s')"
    by blast
  from clickDir_Inr [OF click] obtain acts m where
    s1: "s1 = ?s0\<lparr>log := log ?s0 @ acts, races := m\<rparr>" by blast
  with Cons.prems(1) have frame1: "fileManagerFrame (s1\<lparr>curDirPath := p\<rparr>)"
    by (simp add: emit_def)
  from Cons.IH [OF frame1 rest] obtain acts' m' where
    res: "res = Inr ()" and
    "s' = (s1\<lparr>curDirPath := p\<rparr>)\<lparr>log := log (s1\<lparr>curDirPath := p\<rparr>) @ acts', races := m',
        curDirPath := last (curDirPath (s1\<lparr>curDirPath := p\<rparr>) # ps)\<rparr>"
    by blast
  with s1 have "s' = s\<lparr>log := log s @ (WaitForSelector (getDirSelector p) False # acts @ acts'),
      races := m', curDirPath := last (curDirPath s # p # ps)\<rparr>"
    by (simp add: emit_def)
  with res show ?case by blast
qed

section \<open>Tearing down and the last click\<close>

lemma destroyNav_closed:
  "\<not> fileManagerFrame s \<Longrightarrow> destroyNav path s = Some (Inl TypeError, s)"
  by (simp add: destroyNav_def Let_def)

lemma destroyNav_returns:
  assumes "destroyNav_search (curDirPath s) path \<in> set (pathChain (curDirPath s))"
    and "fileManagerFrame s"
  shows "destroyNav path s =
     Some (Inr (),
           s\<lparr>curDirPath := destroyNav_search (curDirPath s) path,
              log := log s @ WaitForSelector (getDirSelector (curDirPath s)) True #
                map (\<lambda>p. CloseDir (getDirSelector p))
                  (takeWhile (\<lambda>p. p \<noteq> destroyNav_search (curDirPath s) path)
                     (pathChain (curDirPath s)) @
                   [destroyNav_search (curDirPath s) path])\<rparr>)"
proof -
  let ?A = "destroyNav_search (curDirPath s) path"
  let ?s1 = "emit [WaitForSelector (getDirSelector (curDirPath s)) True] s"
  from assms(1) have mem: "?A \<in> set (pathChain (curDirPath ?s1))" by (simp add: emit_def)
  from assms(2) have frame1: "fileManagerFrame ?s1" by (simp add: emit_def)
  from destroyNav_loop_returns [OF mem frame1] assms(2)
  show ?thesis by (simp add: destroyNav_def Let_def closeDir_open emit_def)
qed

lemma destroyNav_Some:
  assumes "destroyNav path s = Some res" and "fileManagerFrame s"
  shows "destroyNav_search (curDirPath s) path \<in> set (pathChain (curDirPath s))"
proof -
  let ?s1 = "emit [WaitForSelector (getDirSelector (curDirPath s)) True] s"
  from assms(2) have frame1: "fileManagerFrame ?s1" by (simp add: emit_def)
  from assms obtain res2 where
    "destroyNav_loop (destroyNav_search (curDirPath s) path) ?s1 = Some res2"
    by (auto simp: destroyNav_def Let_def split: option.splits)
  from destroyNav_loop_Some [OF this] frame1 show ?thesis by (simp add: emit_def)
qed

lemma nav_last_returns:
  assumes "everAcknowledged r" and "response r = Some names" and "fileManagerFrame s"
  shows "\<exists>acts m n. nav_last r path s =
      Some (Inr (),
        s\<lparr>log := log s @ WaitForSelector (getDirSelector path) False #
                 Armed (Some (''directory='' @ replace path ''/'' ''%2F'')) True # acts,
           races := m, lastXhrPostData := None,
           allowedXhrPostData := Some (''directory='' @ replace path ''/'' ''%2F''),
           blockRepetitiveXhr := False, curDirFiles := Some names, curDirPath := path\<rparr>)
    \<and> closes acts = []
    \<and> clicks acts = replicate (Suc n) (getDirSelector path, if path = [] then 2 else 1)"
proof -
  let ?key = "''directory='' @ replace path ''/'' ''%2F''"
  let ?c = "if path = [] then 2 else 1 :: nat"
  let ?s4 = "blockRepXhr False
    (allowXhr (Some ?key) True (emit [WaitForSelector (getDirSelector path) False] s))"
  from assms(3) have frame4: "fileManagerFrame ?s4"
    by (simp add: allowXhr_def blockRepXhr_def emit_def)
  from clickDir_returns [OF assms(1) frame4, of path ?c] obtain acts m n where
    click: "clickDir r path ?c ?s4 = Some (Inr (), ?s4\<lparr>log := log ?s4 @ acts, races := m\<rparr>)"
    and a1: "closes acts = []"
    and a2: "clicks acts = replicate (Suc n) (getDirSelector path, ?c)"
    by blast
  from click assms(2) have "nav_last r path s =
      Some (Inr (),
        s\<lparr>log := log s @ WaitForSelector (getDirSelector path) False #
                 Armed (Some ?key) True # acts,
           races := m, lastXhrPostData := None, allowedXhrPostData := Some ?key,
           blockRepetitiveXhr := False, curDirFiles := Some names, curDirPath := path\<rparr>)"
    by (simp add: nav_last_def getDirFilesPromise_def Let_def allowXhr_def blockRepXhr_def
        emit_def)
  with a1 a2 show ?thesis by blast
qed

lemma nav_last_Inr:
  assumes "nav_last r path s = Some (Inr (), s')"
  shows "curDirPath s' = path \<and> fileManagerFrame s' = fileManagerFrame s"
proof -
  let ?key = "''directory='' @ replace path ''/'' ''%2F''"
  let ?c = "if path = [] then 2 else 1 :: nat"
  let ?s3 = "allowXhr (Some ?key) True (emit [WaitForSelector (getDirSelector path) False] s)"
  from assms obtain names u s5 where
    click: "clickDir r path ?c (blockRepXhr False ?s3) = Some (Inr u, s5)"
    and s': "s' = s5\<lparr>curDirFiles := Some names, curDirPath := path\<rparr>"
    by (auto simp: nav_last_def getDirFilesPromise_def Let_def
        split: option.splits sum.splits prod.splits)
  from clickDir_Inr [OF click] obtain acts m where
    "s5 = (blockRepXhr False ?s3)\<lparr>log := log (blockRepXhr False ?s3) @ acts, races := m\<rparr>"
    by blast
  with s' show ?thesis by (simp add: allowXhr_def blockRepXhr_def emit_def)
qed

lemma nav_last_timeout:
  assumes "response r = None" and "fileManagerFrame s"
  shows "\<exists>s'. nav_last r path s = Some (Inl (Timeout 30000), s')
     \<and> curDirPath s' = curDirPath s \<and> curDirFiles s' = curDirFiles s
     \<and> fileManagerFrame s' = fileManagerFrame s"
proof -
  let ?key = "''directory='' @ replace path ''/'' ''%2F''"
  let ?c = "if path = [] then 2 else 1 :: nat"
  let ?s4 = "allowXhr (Some ?key) True (emit [WaitForSelector (getDirSelector path) False] s)"
  from assms(2) have frame4: "fileManagerFrame ?s4" by (simp add: allowXhr_def emit_def)
  show ?thesis
  proof (cases "clickDir r path ?c ?s4")
    case None
    with assms(1) have "nav_last r path s = Some (Inl (Timeout 30000), ?s4)"
      by (simp add: nav_last_def getDirFilesPromise_def Let_def split del: if_split)
    moreover have "curDirPath ?s4 = curDirPath s \<and> curDirFiles ?s4 = curDirFiles s
        \<and> fileManagerFrame ?s4 = fileManagerFrame s"
      by (simp add: allowXhr_def emit_def)
    ultimately show ?thesis by blast
  next
    case (Some a)
    obtain x s5 where a: "a = (x, s5)" by (cases a)
    show ?thesis
    proof (cases x)
      case (Inl e)
      with Some a clickDir_not_Inl [OF frame4, of r path ?c e s5] show ?thesis by simp
    next
      case (Inr u)
      with Some a have click: "clickDir r path ?c ?s4 = Some (Inr u, s5)" by simp
      with assms(1) have "nav_last r path s = Some (Inl (Timeout 30000), s5)"
        by (simp add: nav_last_def getDirFilesPromise_def Let_def split del: if_split)
      moreover from clickDir_Inr [OF click] obtain acts m where
        "s5 = ?s4\<lparr>log := log ?s4 @ acts, races := m\<rparr>" by blast
      then have "curDirPath s5 = curDirPath s \<and> curDirFiles s5 = curDirFiles s
          \<and> fileManagerFrame s5 = fileManagerFrame s"
        by (simp add: allowXhr_def emit_def)
      ultimately show ?thesis by blast
    qed
  qed
qed

section \<open>The chain between the ancestor and the target\<close>

lemma last_below:
  assumes "A \<in> set (pathChain P)"
  shows "last (A # rev (takeWhile (\<lambda>p. p \<noteq> A) (pathChain P))) = P"
proof (cases "P = A")
  case True
  then show ?thesis by simp
next
  case False
  from takeWhile_pathChain_step [OF False assms] show ?thesis by simp
qed

lemma last_butlast_below:
  assumes "A \<in> set (pathChain P)"
  shows "last (A # butlast (rev (takeWhile (\<lambda>p. p \<noteq> A) (pathChain P)))) =
     (if P = A then A else parentPath P)"
proof (cases "P = A")
  case True
  then show ?thesis by simp
next
  case False
  from takeWhile_pathChain_step [OF False assms]
  have mem: "A \<in> set (pathChain (parentPath P))"
    and tw: "takeWhile (\<lambda>p. p \<noteq> A) (pathChain P) =
      P # takeWhile (\<lambda>p. p \<noteq> A) (pathChain (parentPath P))"
    by simp_all
  show ?thesis
  proof (cases "parentPath P = A")
    case True
    with False tw show ?thesis by simp
  next
    case ne: False
    from takeWhile_pathChain_step [OF ne mem]
    have "takeWhile (\<lambda>p. p \<noteq> A) (pathChain (parentPath P)) =
        parentPath P # takeWhile (\<lambda>p. p \<noteq> A) (pathChain (parentPath (parentPath P)))"
      by simp
    with tw have "rev (takeWhile (\<lambda>p. p \<noteq> A) (pathChain P)) =
        (rev (takeWhile (\<lambda>p. p \<noteq> A) (pathChain (parentPath (parentPath P)))) @
          [parentPath P]) @ [P]"
      by simp
    then have "butlast (rev (takeWhile (\<lambda>p. p \<noteq> A) (pathChain P))) =
        rev (takeWhile (\<lambda>p. p \<noteq> A) (pathChain (parentPath (parentPath P)))) @
          [parentPath P]"
      by (simp only: butlast_snoc)
    with False show ?thesis by simp
  qed
qed

lemma distinct_targets:
  assumes "A \<in> set (pathChain P)"
  shows "distinct (A # rev (takeWhile (\<lambda>p. p \<noteq> A) (pathChain P)))"
proof -
  have "distinct (takeWhile (\<lambda>p. p \<noteq> A) (pathChain P))"
    using pathChain_distinct [of P] by (rule distinct_takeWhile)
  moreover have "A \<notin> set (takeWhile (\<lambda>p. p \<noteq> A) (pathChain P))"
    using set_takeWhileD by fastforce
  ultimately show ?thesis by simp
qed

section \<open>A navigation as a whole\<close>

text \<open>Past the two early returns, and when the ancestor found by \<^verbatim>\<open>destroyNav\<close> lies on
  the chain of the cursor, a navigation is the tear-down followed by the opening loop
  and the last click.\<close>

lemma nav_unfold:
  assumes "fileManagerFrame s" and "curDirPath s \<noteq> P"
    and "A = destroyNav_search (curDirPath s) P"
    and "A \<in> set (pathChain (curDirPath s))"
    and "s1 = s\<lparr>lastXhrPostData := None, allowedXhrPostData := None,
                blockRepetitiveXhr := True, curDirPath := A,
                log := log s @ Armed None True #
                  WaitForSelector (getDirSelector (curDirPath s)) True #
                  map (\<lambda>p. CloseDir (getDirSelector p))
                    (takeWhile (\<lambda>p. p \<noteq> A) (pathChain (curDirPath s)) @ [A])\<rparr>"
  shows "navInFileManager r P s =
     (case nav_open r (butlast (A # rev (takeWhile (\<lambda>p. p \<noteq> A) (pathChain P)))) s1 of
        None \<Rightarrow> None
      | Some (Inl e, s2) \<Rightarrow> Some (Inl e, s2)
      | Some (Inr u, s2) \<Rightarrow> nav_last r P s2)"
proof -
  let ?s0 = "allowXhr None True s"
  have cur0: "curDirPath ?s0 = curDirPath s" by (simp add: allowXhr_def emit_def)
  with assms(3,4) have "destroyNav_search (curDirPath ?s0) P \<in> set (pathChain (curDirPath ?s0))"
    by simp
  moreover from assms(1) have "fileManagerFrame ?s0" by (simp add: allowXhr_def emit_def)
  ultimately have "destroyNav P ?s0 =
     Some (Inr (),
           ?s0\<lparr>curDirPath := destroyNav_search (curDirPath ?s0) P,
              log := log ?s0 @ WaitForSelector (getDirSelector (curDirPath ?s0)) True #
                map (\<lambda>p. CloseDir (getDirSelector p))
                  (takeWhile (\<lambda>p. p \<noteq> destroyNav_search (curDirPath ?s0) P)
                     (pathChain (curDirPath ?s0)) @
                   [destroyNav_search (curDirPath ?s0) P])\<rparr>)"
    by (rule destroyNav_returns)
  with assms(3,5) have tear: "destroyNav P ?s0 = Some (Inr (), s1)"
    by (simp add: allowXhr_def emit_def)
  from assms(5) have cur1: "curDirPath s1 = A" by simp
  from assms(3) have chain: "A \<in> set (pathChain P)" by (simp add: destroyNav_search_chain)
  from nav_paths_returns [OF chain, of "[]"]
  have paths: "nav_paths P A [] = Some (rev (takeWhile (\<lambda>p. p \<noteq> A) (pathChain P)))" by simp
  from assms(1,2) tear cur1 paths last_below [OF chain] show ?thesis
    by (simp add: navInFileManager_def Let_def del: butlast.simps last.simps
        cong: option.case_cong prod.case_cong sum.case_cong)
qed

lemma nav_returns:
  assumes "fileManagerFrame s" and "curDirPath s \<noteq> P"
    and "A = destroyNav_search (curDirPath s) P"
    and "A \<in> set (pathChain (curDirPath s))"
    and "everAcknowledged r" and "response r = Some names"
  shows "\<exists>s' opens fin. navInFileManager r P s = Some (Inr (), s')
    \<and> log s' = log s @ Armed None True # WaitForSelector (getDirSelector (curDirPath s)) True #
        map (\<lambda>p. CloseDir (getDirSelector p))
          (takeWhile (\<lambda>p. p \<noteq> A) (pathChain (curDirPath s)) @ [A]) @
        opens @ WaitForSelector (getDirSelector P) False #
        Armed (Some (''directory='' @ replace P ''/'' ''%2F'')) True # fin
    \<and> closes opens = [] \<and> closes fin = []
    \<and> remdups_adj (clicks opens) =
        map (\<lambda>p. (getDirSelector p, 2))
          (butlast (A # rev (takeWhile (\<lambda>p. p \<noteq> A) (pathChain P))))
    \<and> remdups_adj (clicks fin) = [(getDirSelector P, if P = [] then 2 else 1)]
    \<and> remdups_adj (clicks opens @ clicks fin) =
        map (\<lambda>p. (getDirSelector p, 2))
          (butlast (A # rev (takeWhile (\<lambda>p. p \<noteq> A) (pathChain P)))) @
        [(getDirSelector P, if P = [] then 2 else 1)]
    \<and> curDirPath s' = P \<and> curDirFiles s' = Some names
    \<and> allowedXhrPostData s' = Some (''directory='' @ replace P ''/'' ''%2F'')
    \<and> fileManagerFrame s'"
proof -
  let ?full = "A # rev (takeWhile (\<lambda>p. p \<noteq> A) (pathChain P))"
  let ?f = "\<lambda>p. (getDirSelector p, 2::nat)"
  let ?c = "if P = [] then 2 else 1 :: nat"
  let ?s1 = "s\<lparr>lastXhrPostData := None, allowedXhrPostData := None,
                blockRepetitiveXhr := True, curDirPath := A,
                log := log s @ Armed None True #
                  WaitForSelector (getDirSelector (curDirPath s)) True #
                  map (\<lambda>p. CloseDir (getDirSelector p))
                    (takeWhile (\<lambda>p. p \<noteq> A) (pathChain (curDirPath s)) @ [A])\<rparr>"
  from assms(3) have chain: "A \<in> set (pathChain P)" by (simp add: destroyNav_search_chain)
  from assms(1) have frame1: "fileManagerFrame ?s1" by simp
  from nav_open_returns [OF assms(5) frame1, of "butlast ?full"] obtain opens m ns where
    "open": "nav_open r (butlast ?full) ?s1 =
       Some (Inr (),
             ?s1\<lparr>log := log ?s1 @ opens, races := m,
                 curDirPath := last (curDirPath ?s1 # butlast ?full)\<rparr>)"
    and o1: "closes opens = []" and o2: "length ns = length (butlast ?full)"
    and o3: "clicks opens = runs (map ?f (butlast ?full)) ns"
    by blast
  let ?s2 = "?s1\<lparr>log := log ?s1 @ opens, races := m,
                 curDirPath := last (curDirPath ?s1 # butlast ?full)\<rparr>"
  from assms(1) have frame2: "fileManagerFrame ?s2" by simp
  from nav_last_returns [OF assms(5,6) frame2, of P] obtain fin m' n where
    final: "nav_last r P ?s2 =
      Some (Inr (),
        ?s2\<lparr>log := log ?s2 @ WaitForSelector (getDirSelector P) False #
                 Armed (Some (''directory='' @ replace P ''/'' ''%2F'')) True # fin,
           races := m', lastXhrPostData := None,
           allowedXhrPostData := Some (''directory='' @ replace P ''/'' ''%2F''),
           blockRepetitiveXhr := False, curDirFiles := Some names, curDirPath := P\<rparr>)"
    and f1: "closes fin = []"
    and f2: "clicks fin = replicate (Suc n) (getDirSelector P, ?c)"
    by blast
  let ?s' = "?s2\<lparr>log := log ?s2 @ WaitForSelector (getDirSelector P) False #
                 Armed (Some (''directory='' @ replace P ''/'' ''%2F'')) True # fin,
           races := m', lastXhrPostData := None,
           allowedXhrPostData := Some (''directory='' @ replace P ''/'' ''%2F''),
           blockRepetitiveXhr := False, curDirFiles := Some names, curDirPath := P\<rparr>"
  from nav_unfold [OF assms(1-4) refl, of r] "open" final
  have run: "navInFileManager r P s = Some (Inr (), ?s')" by simp
  have full: "butlast ?full @ [P] = ?full"
    using last_below [OF chain] append_butlast_last_id [of ?full] by simp
  have "distinct (map getDirSelector ?full)"
    using distinct_targets [OF chain] getDirSelector_inj
    by (simp only: distinct_map) (auto intro: inj_onI)
  then have "distinct (map getDirSelector (butlast ?full @ [P]))" by (simp only: full)
  then have "distinct (map fst (map ?f (butlast ?full) @ [(getDirSelector P, ?c)]))"
    by (simp add: comp_def)
  then have dist: "distinct (map ?f (butlast ?full) @ [(getDirSelector P, ?c)])"
    using distinct_map by blast
  then have dist1: "distinct (map ?f (butlast ?full))" by simp
  from f2 have fruns: "clicks fin = runs [(getDirSelector P, ?c)] [n]" by simp
  from o2 have len: "length ns = length (map ?f (butlast ?full))" by simp
  have r1: "remdups_adj (clicks opens) = map ?f (butlast ?full)"
    using remdups_adj_runs [OF dist1 len] o3 by simp
  have r2: "remdups_adj (clicks fin) = [(getDirSelector P, ?c)]"
    using f2 by (simp only: remdups_adj_replicate) simp
  have "clicks opens @ clicks fin =
      runs (map ?f (butlast ?full) @ [(getDirSelector P, ?c)]) (ns @ [n])"
    using runs_append [OF len, of "[(getDirSelector P, ?c)]" "[n]"] o3 fruns by simp
  moreover have "length (ns @ [n]) = length (map ?f (butlast ?full) @ [(getDirSelector P, ?c)])"
    using o2 by simp
  ultimately have r3: "remdups_adj (clicks opens @ clicks fin) =
      map ?f (butlast ?full) @ [(getDirSelector P, ?c)]"
    using remdups_adj_runs [OF dist] by simp
  have lg: "log ?s' = log s @ Armed None True #
        WaitForSelector (getDirSelector (curDirPath s)) True #
        map (\<lambda>p. CloseDir (getDirSelector p))
          (takeWhile (\<lambda>p. p \<noteq> A) (pathChain (curDirPath s)) @ [A]) @
        opens @ WaitForSelector (getDirSelector P) False #
        Armed (Some (''directory='' @ replace P ''/'' ''%2F'')) True # fin"
    by simp
  have fields: "curDirPath ?s' = P \<and> curDirFiles ?s' = Some names
    \<and> allowedXhrPostData ?s' = Some (''directory='' @ replace P ''/'' ''%2F'')
    \<and> fileManagerFrame ?s'"
    using assms(1) by simp
  from run lg o1 f1 r1 r2 r3 fields show ?thesis by blast
qed

lemma nav_Some:
  assumes "navInFileManager r P s = Some (res, s')"
    and "fileManagerFrame s" and "curDirPath s \<noteq> P"
  shows "destroyNav_search (curDirPath s) P \<in> set (pathChain (curDirPath s))"
proof -
  from assms obtain res1 where tear: "destroyNav P (allowXhr None True s) = Some res1"
    by (auto simp: navInFileManager_def split: option.splits)
  from assms(2) have "fileManagerFrame (allowXhr None True s)"
    by (simp add: allowXhr_def emit_def)
  from destroyNav_Some [OF tear this] show ?thesis by (simp add: allowXhr_def emit_def)
qed

lemma startsWith_length: "startsWith s t \<Longrightarrow> length t \<le> length s"
  by (induction s t rule: startsWith.induct) simp_all

lemma startsWith_refl [simp]: "startsWith s s"
  by (induction s) simp_all

lemma includesStr_length: "includesStr s t \<Longrightarrow> length t \<le> length s"
  by (induction s) (auto dest: startsWith_length)

lemma includesStr_refl [simp]: "includesStr s s"
  by (cases s) simp_all

lemma destroyNav_search_parent:
  assumes "P \<noteq> parentPath P"
  shows "destroyNav_search (parentPath P) P = parentPath P"
proof -
  from assms have "P \<noteq> []" by auto
  from parentPath_shorter [OF this] includesStr_length [of "parentPath P" P]
  have "\<not> includesStr (parentPath P) P" by auto
  then show ?thesis
    by (subst destroyNav_search.simps, simp, subst destroyNav_search.simps, simp)
qed

section \<open>The example environments\<close>

lemma openedCartmin_eq:
  "openedCartmin =
     \<lparr>browser = True, fileManagerFrame = True, blockRepetitiveXhr = False,
      lastXhrPostData = None, allowedXhrPostData = None, curDirFiles = None,
      curDirPath = [], successMsg = ''Success'',
      log = [NavToProductPageTab ''data'', ClickProductUploadBtn DataUploadBtn, WaitForFrame],
      races = 0\<rparr>"
  by (simp add: openedCartmin_def openFileManager_def getProductPageUploadBtn_def
      navToProductPageTab_def launch_def constructCartmin_def newCartmin_def emit_def)

lemma openedCartmin_frame: "fileManagerFrame openedCartmin"
  by (simp add: openedCartmin_eq)

lemma openedCartmin_cursor [simp]: "curDirPath openedCartmin = []"
  by (simp add: openedCartmin_eq)

lemma deepCartmin_frame: "fileManagerFrame deepCartmin"
  by (simp add: deepCartmin_def openedCartmin_eq)

lemma deepCartmin_cursor [simp]: "curDirPath deepCartmin = ''a/b''"
  by (simp add: deepCartmin_def)

lemma promptRemote_acknowledges: "everAcknowledged promptRemote"
  by (simp add: everAcknowledged_def isClickedPromise_def promptRemote_def)

lemma promptRemote_response: "response promptRemote = Some [''cat.png'', ''dog.jpg'']"
  by (simp add: promptRemote_def)

lemma silentRemote_acknowledges: "everAcknowledged silentRemote"
  by (simp add: everAcknowledged_def isClickedPromise_def silentRemote_def promptRemote_def)

lemma silentRemote_response: "response silentRemote = None"
  by (simp add: silentRemote_def)

lemma destroyNav_search_root: "destroyNav_search [] P = []"
proof (induction "[]::string" P rule: destroyNav_search.induct)
  case (1 path)
  show ?case
  proof (cases "path = []")
    case True
    then show ?thesis by (subst destroyNav_search.simps) simp
  next
    case False
    then have ninc: "\<not> includesStr [] path" by simp
    show ?thesis
    proof (cases "parentPath path = []")
      case True
      with ninc show ?thesis by (subst destroyNav_search.simps) simp
    next
      case ne: False
      from 1 [OF ninc ne] ninc ne show ?thesis by (subst destroyNav_search.simps) simp
    qed
  qed
qed

text \<open>A click that is acknowledged at the first attempt.\<close>

lemma clickDir_at_once:
  "fileManagerFrame s \<Longrightarrow> isClickedPromise r (races s) \<Longrightarrow>
   clickDir r p c s =
     Some (Inr (),
           if p = [] then emit [Click (getDirSelector p) c] s
           else (emit [ShowOnly (getDirSelector p), Click (getDirSelector p) c] s)
                  \<lparr>races := Suc (races s)\<rparr>)"
proof (cases "p = []")
  case True
  assume "fileManagerFrame s"
  with True show ?thesis by (simp add: clickDir_def Let_def)
next
  case False
  let ?s0 = "emit [ShowOnly (getDirSelector p)] s"
  assume frame: "fileManagerFrame s" and "isClickedPromise r (races s)"
  then have "isClickedPromise r (races ?s0)" by (simp add: emit_def)
  then have "clickDir_loop r (getDirSelector p) c ?s0 =
      Some ((emit [Click (getDirSelector p) c] ?s0)\<lparr>races := Suc (races ?s0)\<rparr>)"
    by (subst clickDir_loop.simps) simp
  with False frame show ?thesis by (simp add: clickDir_def Let_def emit_def)
qed

text \<open>A navigation that succeeded leaves the session open and the cursor at its target.\<close>

lemma nav_success_state:
  assumes "navInFileManager r P s = Some (Inr (), s1)"
  shows "fileManagerFrame s1 \<and> curDirPath s1 = P"
proof -
  from assms have frame: "fileManagerFrame s"
    by (auto simp: navInFileManager_def split: if_splits)
  show ?thesis
  proof (cases "curDirPath s = P")
    case True
    with assms frame show ?thesis by (simp add: navInFileManager_def)
  next
    case False
    let ?A = "destroyNav_search (curDirPath s) P"
    let ?s1 = "s\<lparr>lastXhrPostData := None, allowedXhrPostData := None,
                blockRepetitiveXhr := True, curDirPath := ?A,
                log := log s @ Armed None True #
                  WaitForSelector (getDirSelector (curDirPath s)) True #
                  map (\<lambda>p. CloseDir (getDirSelector p))
                    (takeWhile (\<lambda>p. p \<noteq> ?A) (pathChain (curDirPath s)) @ [?A])\<rparr>"
    from nav_Some [OF assms frame False] have chain: "?A \<in> set (pathChain (curDirPath s))" .
    from frame have frame1: "fileManagerFrame ?s1" by simp
    from nav_unfold [OF frame False refl chain refl, of r] assms obtain u s2 where
      "open": "nav_open r (butlast (?A # rev (takeWhile (\<lambda>p. p \<noteq> ?A) (pathChain P)))) ?s1 =
         Some (Inr u, s2)"
      and final: "nav_last r P s2 = Some (Inr (), s1)"
      by (auto split: option.splits sum.splits prod.splits)
    from nav_open_Some [OF frame1 "open"] frame have "fileManagerFrame s2" by auto
    with nav_last_Inr [OF final] show ?thesis by simp
  qed
qed

section \<open>Repeating a navigation\<close>

text \<open>
  C4. When \<^verbatim>\<open>navigate(P)\<close> has succeeded, a second \<^verbatim>\<open>navigate(P)\<close> returns at the
  cursor-equality check: it succeeds and leaves the whole state as it was, the log of
  driver actions, the cursor and the cached listing included, whatever the remote side
  would answer.
\<close>

theorem nav_again_is_noop:
  assumes "navInFileManager r P s = Some (Inr (), s1)"
  shows "navInFileManager r' P s1 = Some (Inr (), s1)"
  using nav_success_state [OF assms] by (simp add: navInFileManager_def)

theorem nav_again_is_noop_witness:
  "map_option fst (navInFileManager promptRemote ''2024/spring'' openedCartmin) = Some (Inr ())
   \<and> Option.bind (navInFileManager promptRemote ''2024/spring'' openedCartmin)
        (navInFileManager silentRemote ''2024/spring'' \<circ> snd) =
      navInFileManager promptRemote ''2024/spring'' openedCartmin"
proof -
  have "curDirPath openedCartmin \<noteq> ''2024/spring''" by simp
  from nav_returns [OF openedCartmin_frame this refl _ promptRemote_acknowledges
      promptRemote_response]
  obtain s1 where
    first: "navInFileManager promptRemote ''2024/spring'' openedCartmin = Some (Inr (), s1)"
    by (auto simp: destroyNav_search_root)
  from nav_again_is_noop [OF first, of silentRemote] first show ?thesis by simp
qed

section \<open>Concrete paths\<close>

lemma parentPath_a: "parentPath ''a'' = []"
  by (simp add: parentPath_def substring_def Let_def)

lemma parentPath_ab: "parentPath ''a/b'' = ''a''"
  by (simp add: parentPath_def substring_def Let_def)

lemma parentPath_ac: "parentPath ''a/c'' = ''a''"
  by (simp add: parentPath_def substring_def Let_def)

lemma parentPath_2024: "parentPath ''2024'' = []"
  by (simp add: parentPath_def substring_def Let_def)

lemma parentPath_spring: "parentPath ''2024/spring'' = ''2024''"
  by (simp add: parentPath_def substring_def Let_def)

lemma pathChain_Nil: "pathChain [] = [[]]"
  by (subst pathChain.simps) simp

lemma pathChain_a: "pathChain ''a'' = [''a'', []]"
  by (subst pathChain.simps) (simp add: parentPath_a pathChain_Nil)

lemma pathChain_ab: "pathChain ''a/b'' = [''a/b'', ''a'', []]"
  by (subst pathChain.simps) (simp add: parentPath_ab pathChain_a)

lemma pathChain_ac: "pathChain ''a/c'' = [''a/c'', ''a'', []]"
  by (subst pathChain.simps) (simp add: parentPath_ac pathChain_a)

lemma pathChain_spring: "pathChain ''2024/spring'' = [''2024/spring'', ''2024'', []]"
  by (subst pathChain.simps, simp add: parentPath_spring, subst pathChain.simps,
      simp add: parentPath_2024 pathChain_Nil)

lemma search_ab_ac: "destroyNav_search ''a/b'' ''a/c'' = ''a''"
  by (subst destroyNav_search.simps, simp add: parentPath_ac, subst destroyNav_search.simps, simp)

lemma search_ab_a: "destroyNav_search ''a/b'' ''a'' = ''a''"
  by (subst destroyNav_search.simps) simp

lemma isClickedPromise_promptRemote [simp]: "isClickedPromise promptRemote n"
  by (simp add: isClickedPromise_def promptRemote_def)

text \<open>From \<^verbatim>\<open>a/b\<close> to \<^verbatim>\<open>a/c\<close> on a remote side that answers at once.\<close>

lemma nav_deep_ac:
  "navInFileManager promptRemote ''a/c'' deepCartmin =
     Some (Inr (),
       deepCartmin\<lparr>lastXhrPostData := None, allowedXhrPostData := Some ''directory=a%2Fc'',
         blockRepetitiveXhr := False, curDirFiles := Some [''cat.png'', ''dog.jpg''],
         curDirPath := ''a/c'',
         log := log deepCartmin @
           [Armed None True,
            WaitForSelector (getDirSelector ''a/b'') True,
            CloseDir (getDirSelector ''a/b''),
            CloseDir (getDirSelector ''a''),
            WaitForSelector (getDirSelector ''a'') False,
            ShowOnly (getDirSelector ''a''),
            Click (getDirSelector ''a'') 2,
            WaitForSelector (getDirSelector ''a/c'') False,
            Armed (Some ''directory=a%2Fc'') True,
            ShowOnly (getDirSelector ''a/c''),
            Click (getDirSelector ''a/c'') 1],
         races := Suc (Suc (races deepCartmin))\<rparr>)"
proof -
  have ne: "curDirPath deepCartmin \<noteq> ''a/c''" by simp
  have A: "''a'' = destroyNav_search (curDirPath deepCartmin) ''a/c''"
    by (simp add: search_ab_ac)
  have ch: "''a'' \<in> set (pathChain (curDirPath deepCartmin))" by (simp add: pathChain_ab)
  from nav_unfold [OF deepCartmin_frame ne A ch refl, of promptRemote]
  show ?thesis
    by (simp add: pathChain_ab pathChain_ac clickDir_at_once deepCartmin_frame nav_last_def
        getDirFilesPromise_def promptRemote_response allowXhr_def blockRepXhr_def emit_def)
qed


text \<open>From the top directory to \<^verbatim>\<open>2024/spring\<close> on a remote side that answers at once.\<close>

lemma nav_root_spring:
  "navInFileManager promptRemote ''2024/spring'' openedCartmin =
     Some (Inr (),
       openedCartmin\<lparr>lastXhrPostData := None,
         allowedXhrPostData := Some ''directory=2024%2Fspring'',
         blockRepetitiveXhr := False, curDirFiles := Some [''cat.png'', ''dog.jpg''],
         curDirPath := ''2024/spring'',
         log := log openedCartmin @
           [Armed None True,
            WaitForSelector (getDirSelector []) True,
            CloseDir (getDirSelector []),
            WaitForSelector (getDirSelector []) False,
            Click (getDirSelector []) 2,
            WaitForSelector (getDirSelector ''2024'') False,
            ShowOnly (getDirSelector ''2024''),
            Click (getDirSelector ''2024'') 2,
            WaitForSelector (getDirSelector ''2024/spring'') False,
            Armed (Some ''directory=2024%2Fspring'') True,
            ShowOnly (getDirSelector ''2024/spring''),
            Click (getDirSelector ''2024/spring'') 1],
         races := Suc (Suc (races openedCartmin))\<rparr>)"
proof -
  have ne: "curDirPath openedCartmin \<noteq> ''2024/spring''" by simp
  have A: "[] = destroyNav_search (curDirPath openedCartmin) ''2024/spring''"
    by (simp add: destroyNav_search_root)
  have ch: "[] \<in> set (pathChain (curDirPath openedCartmin))" by simp
  from nav_unfold [OF openedCartmin_frame ne A ch refl, of promptRemote]
  show ?thesis
    by (simp add: pathChain_Nil pathChain_spring clickDir_at_once openedCartmin_frame
        nav_last_def getDirFilesPromise_def promptRemote_response allowXhr_def blockRepXhr_def
        emit_def)
qed

section \<open>Closing and opening between two navigations\<close>

text \<open>
  C1, as the specification states it, fails: going from \<^verbatim>\<open>a/b\<close> to \<^verbatim>\<open>a/c\<close>, whose common
  ancestor is \<^verbatim>\<open>a\<close>, the code closes \<^verbatim>\<open>a/b\<close> and then \<^verbatim>\<open>a\<close> itself, and clicks
  \<^verbatim>\<open>a\<close> again before it clicks \<^verbatim>\<open>a/c\<close>.
\<close>

theorem nav_closes_ancestor_counterexample:
  "map_option (closes \<circ> log \<circ> snd) (navInFileManager promptRemote ''a/c'' deepCartmin) =
     Some [getDirSelector ''a/b'', getDirSelector ''a'']
   \<and> map_option (distinctClicks \<circ> log \<circ> snd) (navInFileManager promptRemote ''a/c'' deepCartmin) =
     Some [(getDirSelector ''a'', 2), (getDirSelector ''a/c'', 1)]"
  by (simp only: nav_deep_ac)
    (simp add: deepCartmin_def openedCartmin_eq distinctClicks_def)

text \<open>
  C1, amended. Let \<^verbatim>\<open>navigate(P1)\<close> have succeeded, let \<open>P2\<close> differ from \<open>P1\<close>, and let
  \<open>A\<close> be what the search of \<^verbatim>\<open>destroyNav\<close> finds: \<open>P2\<close> cut at its last slash again
  and again until the result occurs in \<open>P1\<close> as a substring or is empty. When \<open>A\<close> is
  \<open>P1\<close> or one of its ancestors, and the remote side acknowledges clicks and sends the
  listing, \<^verbatim>\<open>navigate(P2)\<close> succeeds; it first closes the directories of \<open>P1\<close> strictly
  below \<open>A\<close>, deepest first, and then \<open>A\<close> itself, without any click; after that it
  closes nothing and clicks \<open>A\<close> and then the directories of \<open>P2\<close> strictly below \<open>A\<close>, from
  the top down to \<open>P2\<close>.
\<close>

theorem nav_closes_then_opens:
  assumes "navInFileManager r1 P1 s0 = Some (Inr (), s1)"
    and "P2 \<noteq> P1"
    and "A = destroyNav_search P1 P2"
    and "A \<in> set (pathChain P1)"
    and "everAcknowledged r2" and "response r2 = Some names"
  shows "\<exists>s2 pre post. navInFileManager r2 P2 s1 = Some (Inr (), s2)
      \<and> log s2 = log s1 @ pre @ post
      \<and> closes pre = map getDirSelector (takeWhile (\<lambda>p. p \<noteq> A) (pathChain P1) @ [A])
      \<and> clicks pre = []
      \<and> closes post = []
      \<and> map fst (distinctClicks post) =
          map getDirSelector (A # rev (takeWhile (\<lambda>p. p \<noteq> A) (pathChain P2)))"
proof -
  let ?full = "A # rev (takeWhile (\<lambda>p. p \<noteq> A) (pathChain P2))"
  let ?c = "if P2 = [] then 2 else 1 :: nat"
  let ?key = "''directory='' @ replace P2 ''/'' ''%2F''"
  from nav_success_state [OF assms(1)] have frame: "fileManagerFrame s1"
    and cur: "curDirPath s1 = P1" by simp_all
  from cur assms(2) have ne: "curDirPath s1 \<noteq> P2" by simp
  from cur assms(3) have A: "A = destroyNav_search (curDirPath s1) P2" by simp
  from cur assms(4) have ch: "A \<in> set (pathChain (curDirPath s1))" by simp
  from assms(3) have chain: "A \<in> set (pathChain P2)" by (simp add: destroyNav_search_chain)
  from nav_returns [OF frame ne A ch assms(5,6)] obtain s2 opens fin where
    run: "navInFileManager r2 P2 s1 = Some (Inr (), s2)"
    and lg: "log s2 = log s1 @ Armed None True #
        WaitForSelector (getDirSelector (curDirPath s1)) True #
        map (\<lambda>p. CloseDir (getDirSelector p))
          (takeWhile (\<lambda>p. p \<noteq> A) (pathChain (curDirPath s1)) @ [A]) @
        opens @ WaitForSelector (getDirSelector P2) False # Armed (Some ?key) True # fin"
    and c1: "closes opens = []" and c2: "closes fin = []"
    and r3: "remdups_adj (clicks opens @ clicks fin) =
        map (\<lambda>p. (getDirSelector p, 2)) (butlast ?full) @ [(getDirSelector P2, ?c)]"
    by blast
  let ?pre = "Armed None True # WaitForSelector (getDirSelector P1) True #
        map (\<lambda>p. CloseDir (getDirSelector p)) (takeWhile (\<lambda>p. p \<noteq> A) (pathChain P1) @ [A])"
  let ?post = "opens @ WaitForSelector (getDirSelector P2) False # Armed (Some ?key) True # fin"
  from lg cur have l: "log s2 = log s1 @ ?pre @ ?post" by simp
  have p1: "closes ?pre = map getDirSelector (takeWhile (\<lambda>p. p \<noteq> A) (pathChain P1) @ [A])"
    by (simp del: map_append)
  have p2: "clicks ?pre = []" by (simp del: map_append)
  from c1 c2 have q1: "closes ?post = []" by simp
  have full: "butlast ?full @ [P2] = ?full"
    using last_below [OF chain] append_butlast_last_id [of ?full] by simp
  have "map fst (distinctClicks ?post) =
      map fst (map (\<lambda>p. (getDirSelector p, 2::nat)) (butlast ?full) @ [(getDirSelector P2, ?c)])"
    using r3 by (simp add: distinctClicks_def)
  also have "\<dots> = map getDirSelector (butlast ?full @ [P2])" by (simp add: comp_def)
  finally have q2: "map fst (distinctClicks ?post) = map getDirSelector ?full"
    by (simp only: full)
  from run l p1 p2 q1 q2 show ?thesis by blast
qed

text \<open>The theorem for \<open>P1\<close> = \<^verbatim>\<open>a/b\<close> and \<open>P2\<close> = \<^verbatim>\<open>a/c\<close>, where \<open>A\<close> = \<^verbatim>\<open>a\<close>.\<close>

theorem nav_closes_then_opens_witness:
  "navInFileManager promptRemote ''a/b'' deepCartmin = Some (Inr (), deepCartmin)
   \<and> ''a/c'' \<noteq> ''a/b''
   \<and> ''a'' = destroyNav_search ''a/b'' ''a/c''
   \<and> ''a'' \<in> set (pathChain ''a/b'')
   \<and> (\<exists>s2 pre post. navInFileManager promptRemote ''a/c'' deepCartmin = Some (Inr (), s2)
      \<and> log s2 = log deepCartmin @ pre @ post
      \<and> closes pre = [getDirSelector ''a/b'', getDirSelector ''a'']
      \<and> clicks pre = []
      \<and> closes post = []
      \<and> map fst (distinctClicks post) = [getDirSelector ''a'', getDirSelector ''a/c''])"
proof -
  have first: "navInFileManager promptRemote ''a/b'' deepCartmin = Some (Inr (), deepCartmin)"
    by (simp add: navInFileManager_def deepCartmin_frame)
  have ne: "''a/c'' \<noteq> ''a/b''" by simp
  have A: "''a'' = destroyNav_search ''a/b'' ''a/c''" by (simp add: search_ab_ac)
  have ch: "''a'' \<in> set (pathChain ''a/b'')" by (simp add: pathChain_ab)
  from nav_closes_then_opens [OF first ne A ch promptRemote_acknowledges promptRemote_response]
  have "\<exists>s2 pre post. navInFileManager promptRemote ''a/c'' deepCartmin = Some (Inr (), s2)
      \<and> log s2 = log deepCartmin @ pre @ post
      \<and> closes pre = [getDirSelector ''a/b'', getDirSelector ''a'']
      \<and> clicks pre = []
      \<and> closes post = []
      \<and> map fst (distinctClicks post) = [getDirSelector ''a'', getDirSelector ''a/c'']"
    by (simp add: pathChain_ab pathChain_ac)
  with first ne A ch show ?thesis by blast
qed

section \<open>The clicks of a navigation\<close>

text \<open>
  C2, as the specification states it, fails on its own scenario: from the top directory
  to \<^verbatim>\<open>2024/spring\<close> the code closes the top directory once, double-clicks the top
  directory and \<^verbatim>\<open>2024\<close>, and clicks \<^verbatim>\<open>2024/spring\<close> once, not twice.
\<close>

theorem nav_last_click_counterexample:
  "map_option (closes \<circ> log \<circ> snd)
     (navInFileManager promptRemote ''2024/spring'' openedCartmin) = Some [getDirSelector []]
   \<and> map_option (distinctClicks \<circ> log \<circ> snd)
     (navInFileManager promptRemote ''2024/spring'' openedCartmin) =
     Some [(getDirSelector [], 2), (getDirSelector ''2024'', 2),
           (getDirSelector ''2024/spring'', 1)]"
  by (simp only: nav_root_spring)
    (simp add: openedCartmin_eq distinctClicks_def getDirSelector_def)

text \<open>
  C2, amended. In a navigation that gets past the cursor-equality check, with \<open>A\<close> the
  ancestor found by \<^verbatim>\<open>destroyNav\<close> (a real ancestor of the cursor), on a remote side that
  acknowledges clicks and sends the listing: after the tear-down, which clicks nothing,
  every directory on the way from \<open>A\<close> down to the parent of the target (\<open>A\<close> included,
  none at all when the target is \<open>A\<close> itself) is clicked with count 2; then the gate is armed with \<^verbatim>\<open>directory=\<close> followed by the target
  with its first slash replaced by \<^verbatim>\<open>%2F\<close>, and the target is clicked with count 2 if it
  is the top directory and with count 1 otherwise; the listing that arrives becomes the
  cached listing. A click on the top directory is issued once, without an
  acknowledgement race. From the top directory to \<^verbatim>\<open>2024/spring\<close>, on a remote side that
  acknowledges at once, the actions are: the gate disarmed, the top directory closed, the
  top directory clicked twice, \<^verbatim>\<open>2024\<close> shown and clicked twice, the gate armed with
  \<^verbatim>\<open>directory=2024%2Fspring\<close>, \<^verbatim>\<open>2024/spring\<close> shown and clicked once.
\<close>

theorem nav_click_counts:
  assumes "fileManagerFrame s" and "curDirPath s \<noteq> P"
    and "A = destroyNav_search (curDirPath s) P"
    and "A \<in> set (pathChain (curDirPath s))"
    and "everAcknowledged r" and "response r = Some names"
  shows "(\<exists>s' teardown opens fin. navInFileManager r P s = Some (Inr (), s')
      \<and> log s' = log s @ teardown @ opens @
          [WaitForSelector (getDirSelector P) False,
           Armed (Some (''directory='' @ replace P ''/'' ''%2F'')) True] @ fin
      \<and> clicks teardown = []
      \<and> distinctClicks opens =
          map (\<lambda>p. (getDirSelector p, 2))
            (butlast (A # rev (takeWhile (\<lambda>p. p \<noteq> A) (pathChain P))))
      \<and> distinctClicks fin = [(getDirSelector P, if P = [] then 2 else 1)]
      \<and> curDirFiles s' = Some names \<and> curDirPath s' = P)
    \<and> clickDir r [] 2 s = Some (Inr (), emit [Click (getDirSelector []) 2] s)
    \<and> navInFileManager promptRemote ''2024/spring'' openedCartmin =
        Some (Inr (),
          openedCartmin\<lparr>lastXhrPostData := None,
            allowedXhrPostData := Some ''directory=2024%2Fspring'',
            blockRepetitiveXhr := False, curDirFiles := Some [''cat.png'', ''dog.jpg''],
            curDirPath := ''2024/spring'',
            log := log openedCartmin @
              [Armed None True,
               WaitForSelector (getDirSelector []) True,
               CloseDir (getDirSelector []),
               WaitForSelector (getDirSelector []) False,
               Click (getDirSelector []) 2,
               WaitForSelector (getDirSelector ''2024'') False,
               ShowOnly (getDirSelector ''2024''),
               Click (getDirSelector ''2024'') 2,
               WaitForSelector (getDirSelector ''2024/spring'') False,
               Armed (Some ''directory=2024%2Fspring'') True,
               ShowOnly (getDirSelector ''2024/spring''),
               Click (getDirSelector ''2024/spring'') 1],
            races := Suc (Suc (races openedCartmin))\<rparr>)"
proof -
  let ?key = "''directory='' @ replace P ''/'' ''%2F''"
  from nav_returns [OF assms] obtain s' opens fin where
    run: "navInFileManager r P s = Some (Inr (), s')"
    and lg: "log s' = log s @ Armed None True #
        WaitForSelector (getDirSelector (curDirPath s)) True #
        map (\<lambda>p. CloseDir (getDirSelector p))
          (takeWhile (\<lambda>p. p \<noteq> A) (pathChain (curDirPath s)) @ [A]) @
        opens @ WaitForSelector (getDirSelector P) False # Armed (Some ?key) True # fin"
    and r1: "remdups_adj (clicks opens) =
        map (\<lambda>p. (getDirSelector p, 2))
          (butlast (A # rev (takeWhile (\<lambda>p. p \<noteq> A) (pathChain P))))"
    and r2: "remdups_adj (clicks fin) = [(getDirSelector P, if P = [] then 2 else 1)]"
    and fs: "curDirFiles s' = Some names" and cur: "curDirPath s' = P"
    by blast
  let ?td = "Armed None True # WaitForSelector (getDirSelector (curDirPath s)) True #
        map (\<lambda>p. CloseDir (getDirSelector p))
          (takeWhile (\<lambda>p. p \<noteq> A) (pathChain (curDirPath s)) @ [A])"
  from lg have l: "log s' = log s @ ?td @ opens @
      [WaitForSelector (getDirSelector P) False, Armed (Some ?key) True] @ fin"
    by simp
  have t: "clicks ?td = []" by (simp del: map_append)
  from run l t r1 r2 fs cur
  have general: "\<exists>s' teardown opens fin. navInFileManager r P s = Some (Inr (), s')
      \<and> log s' = log s @ teardown @ opens @
          [WaitForSelector (getDirSelector P) False, Armed (Some ?key) True] @ fin
      \<and> clicks teardown = []
      \<and> distinctClicks opens =
          map (\<lambda>p. (getDirSelector p, 2))
            (butlast (A # rev (takeWhile (\<lambda>p. p \<noteq> A) (pathChain P))))
      \<and> distinctClicks fin = [(getDirSelector P, if P = [] then 2 else 1)]
      \<and> curDirFiles s' = Some names \<and> curDirPath s' = P"
    unfolding distinctClicks_def by blast
  have top: "clickDir r [] 2 s = Some (Inr (), emit [Click (getDirSelector []) 2] s)"
    using assms(1) by (simp add: clickDir_def Let_def)
  show ?thesis by (intro conjI general top nav_root_spring)
qed

text \<open>The theorem from the top directory to \<^verbatim>\<open>2024/spring\<close>: two double clicks, then
  the single click on the target.\<close>

theorem nav_click_counts_witness:
  "fileManagerFrame openedCartmin
   \<and> curDirPath openedCartmin \<noteq> ''2024/spring''
   \<and> [] = destroyNav_search (curDirPath openedCartmin) ''2024/spring''
   \<and> [] \<in> set (pathChain (curDirPath openedCartmin))
   \<and> everAcknowledged promptRemote
   \<and> response promptRemote = Some [''cat.png'', ''dog.jpg'']
   \<and> (\<exists>s' teardown opens fin.
        navInFileManager promptRemote ''2024/spring'' openedCartmin = Some (Inr (), s')
      \<and> log s' = log openedCartmin @ teardown @ opens @
          [WaitForSelector (getDirSelector ''2024/spring'') False,
           Armed (Some ''directory=2024%2Fspring'') True] @ fin
      \<and> clicks teardown = []
      \<and> distinctClicks opens = [(getDirSelector [], 2), (getDirSelector ''2024'', 2)]
      \<and> distinctClicks fin = [(getDirSelector ''2024/spring'', 1)]
      \<and> curDirFiles s' = Some [''cat.png'', ''dog.jpg''] \<and> curDirPath s' = ''2024/spring'')"
proof -
  have ne: "curDirPath openedCartmin \<noteq> ''2024/spring''" by simp
  have A: "[] = destroyNav_search (curDirPath openedCartmin) ''2024/spring''"
    by (simp add: destroyNav_search_root)
  have ch: "[] \<in> set (pathChain (curDirPath openedCartmin))" by simp
  from nav_click_counts [OF openedCartmin_frame ne A ch promptRemote_acknowledges
      promptRemote_response, THEN conjunct1]
  have "\<exists>s' teardown opens fin.
        navInFileManager promptRemote ''2024/spring'' openedCartmin = Some (Inr (), s')
      \<and> log s' = log openedCartmin @ teardown @ opens @
          [WaitForSelector (getDirSelector ''2024/spring'') False,
           Armed (Some ''directory=2024%2Fspring'') True] @ fin
      \<and> clicks teardown = []
      \<and> distinctClicks opens = [(getDirSelector [], 2), (getDirSelector ''2024'', 2)]
      \<and> distinctClicks fin = [(getDirSelector ''2024/spring'', 1)]
      \<and> curDirFiles s' = Some [''cat.png'', ''dog.jpg''] \<and> curDirPath s' = ''2024/spring''"
    by (simp add: pathChain_spring)
  with openedCartmin_frame ne A ch promptRemote_acknowledges promptRemote_response
  show ?thesis by blast
qed

section \<open>A listing that never arrives\<close>

lemma last_butlast_full:
  assumes "A \<in> set (pathChain P)"
  shows "last (A # butlast (A # rev (takeWhile (\<lambda>p. p \<noteq> A) (pathChain P)))) =
     (if P = A then A else parentPath P)"
proof (cases "P = A")
  case True
  then show ?thesis by simp
next
  case False
  from takeWhile_pathChain_step [OF False assms]
  have "rev (takeWhile (\<lambda>p. p \<noteq> A) (pathChain P)) \<noteq> []" by simp
  then have "butlast (A # rev (takeWhile (\<lambda>p. p \<noteq> A) (pathChain P))) =
      A # butlast (rev (takeWhile (\<lambda>p. p \<noteq> A) (pathChain P)))"
    by simp
  with last_butlast_below [OF assms] False show ?thesis by simp
qed

text \<open>When the listing does not arrive, a navigation that returns has failed with the
  timeout of 30000 ms; the listing is the old one and the cursor is where the tear-down
  and the opening loop left it.\<close>

lemma nav_timeout_state:
  assumes "navInFileManager r P s = Some (res, s1)"
    and "fileManagerFrame s" and "curDirPath s \<noteq> P"
    and "response r = None"
    and "A = destroyNav_search (curDirPath s) P"
  shows "res = Inl (Timeout 30000) \<and> fileManagerFrame s1 \<and> curDirFiles s1 = curDirFiles s
     \<and> curDirPath s1 = (if P = A then P else parentPath P)"
proof -
  let ?full = "A # rev (takeWhile (\<lambda>p. p \<noteq> A) (pathChain P))"
  let ?s1 = "s\<lparr>lastXhrPostData := None, allowedXhrPostData := None,
                blockRepetitiveXhr := True, curDirPath := A,
                log := log s @ Armed None True #
                  WaitForSelector (getDirSelector (curDirPath s)) True #
                  map (\<lambda>p. CloseDir (getDirSelector p))
                    (takeWhile (\<lambda>p. p \<noteq> A) (pathChain (curDirPath s)) @ [A])\<rparr>"
  from nav_Some [OF assms(1-3)] assms(5) have ch: "A \<in> set (pathChain (curDirPath s))"
    by simp
  from assms(5) have chain: "A \<in> set (pathChain P)" by (simp add: destroyNav_search_chain)
  from assms(2) have frame1: "fileManagerFrame ?s1" by simp
  note unfolded = nav_unfold [OF assms(2,3,5) ch refl, of r]
  show ?thesis
  proof (cases "nav_open r (butlast ?full) ?s1")
    case None
    with unfolded assms(1) show ?thesis by simp
  next
    case (Some a)
    obtain x s2 where a: "a = (x, s2)" by (cases a)
    from Some a have "open": "nav_open r (butlast ?full) ?s1 = Some (x, s2)" by simp
    from nav_open_Some [OF frame1 "open"] obtain acts m where x: "x = Inr ()"
      and "s2 = ?s1\<lparr>log := log ?s1 @ acts, races := m,
              curDirPath := last (curDirPath ?s1 # butlast ?full)\<rparr>"
      by blast
    then have s2: "fileManagerFrame s2 = fileManagerFrame s" "curDirFiles s2 = curDirFiles s"
      "curDirPath s2 = last (A # butlast ?full)"
      by simp_all
    from unfolded "open" x assms(1) have final: "nav_last r P s2 = Some (res, s1)" by simp
    from s2(1) assms(2) have frame2: "fileManagerFrame s2" by simp
    from nav_last_timeout [OF assms(4) frame2, of P] final
    have "res = Inl (Timeout 30000) \<and> curDirPath s1 = curDirPath s2
        \<and> curDirFiles s1 = curDirFiles s2 \<and> fileManagerFrame s1 = fileManagerFrame s2"
      by auto
    with s2 assms(2) last_butlast_full [OF chain] show ?thesis by auto
  qed
qed

lemma nav_timeout_returns:
  assumes "fileManagerFrame s" and "curDirPath s \<noteq> P"
    and "destroyNav_search (curDirPath s) P \<in> set (pathChain (curDirPath s))"
    and "everAcknowledged r" and "response r = None"
  shows "\<exists>s1. navInFileManager r P s = Some (Inl (Timeout 30000), s1)"
proof -
  let ?A = "destroyNav_search (curDirPath s) P"
  let ?full = "?A # rev (takeWhile (\<lambda>p. p \<noteq> ?A) (pathChain P))"
  let ?s1 = "s\<lparr>lastXhrPostData := None, allowedXhrPostData := None,
                blockRepetitiveXhr := True, curDirPath := ?A,
                log := log s @ Armed None True #
                  WaitForSelector (getDirSelector (curDirPath s)) True #
                  map (\<lambda>p. CloseDir (getDirSelector p))
                    (takeWhile (\<lambda>p. p \<noteq> ?A) (pathChain (curDirPath s)) @ [?A])\<rparr>"
  from assms(1) have frame1: "fileManagerFrame ?s1" by simp
  from nav_open_returns [OF assms(4) frame1, of "butlast ?full"] obtain s2 where
    "open": "nav_open r (butlast ?full) ?s1 = Some (Inr (), s2)" by blast
  from nav_open_Some [OF frame1 "open"] assms(1) have frame2: "fileManagerFrame s2" by auto
  from nav_last_timeout [OF assms(5) frame2, of P] obtain s' where
    "nav_last r P s2 = Some (Inl (Timeout 30000), s')" by blast
  with nav_unfold [OF assms(1,2) refl assms(3) refl, of r] "open" show ?thesis by simp
qed

text \<open>
  When the target lies below the ancestor \<open>A\<close> found by \<^verbatim>\<open>destroyNav\<close>, a navigation whose
  listing wait times out fails with the timeout of 30000 ms, keeps the old listing and
  leaves the cursor at the parent of the target, the last directory that was opened; a
  retry on a remote side that acknowledges clicks and sends the listing re-enters
  through the ancestor search and ends with the cursor at the target and the new
  listing.
\<close>

lemma nav_timeout_below:
  assumes "navInFileManager r P s = Some (res, s1)"
    and "fileManagerFrame s" and "curDirPath s \<noteq> P"
    and "response r = None"
    and "A = destroyNav_search (curDirPath s) P" and "P \<noteq> A"
    and "everAcknowledged r'" and "response r' = Some names"
  shows "res = Inl (Timeout 30000) \<and> curDirFiles s1 = curDirFiles s
     \<and> curDirPath s1 = parentPath P
     \<and> (\<exists>s2. navInFileManager r' P s1 = Some (Inr (), s2) \<and> curDirPath s2 = P
           \<and> curDirFiles s2 = Some names)"
proof -
  from nav_timeout_state [OF assms(1-5)] assms(6) have res: "res = Inl (Timeout 30000)"
    and frame: "fileManagerFrame s1" and files: "curDirFiles s1 = curDirFiles s"
    and c1: "curDirPath s1 = parentPath P"
    by simp_all
  from assms(5) have "A \<in> set (pathChain P)" by (simp add: destroyNav_search_chain)
  with assms(6) have "P \<noteq> []" by (auto simp: pathChain_Nil)
  from parentPath_shorter [OF this] have ne: "P \<noteq> parentPath P" by auto
  with c1 have ne1: "curDirPath s1 \<noteq> P" by simp
  from c1 destroyNav_search_parent [OF ne]
  have A1: "curDirPath s1 = destroyNav_search (curDirPath s1) P" by simp
  have ch1: "curDirPath s1 \<in> set (pathChain (curDirPath s1))" by simp
  from nav_returns [OF frame ne1 A1 ch1 assms(7,8)]
  have "\<exists>s2. navInFileManager r' P s1 = Some (Inr (), s2) \<and> curDirPath s2 = P
           \<and> curDirFiles s2 = Some names"
    by auto
  with res files c1 show ?thesis by simp
qed

text \<open>From \<^verbatim>\<open>a/b\<close> to \<^verbatim>\<open>a/c\<close>: the cursor is left at \<^verbatim>\<open>a\<close>, and the retry reaches
  \<^verbatim>\<open>a/c\<close>.\<close>

lemma nav_timeout_below_example:
  "map_option fst (navInFileManager silentRemote ''a/c'' deepCartmin) = Some (Inl (Timeout 30000))
   \<and> map_option (curDirPath \<circ> snd) (navInFileManager silentRemote ''a/c'' deepCartmin) = Some ''a''
   \<and> map_option (curDirFiles \<circ> snd) (navInFileManager silentRemote ''a/c'' deepCartmin) =
       Some (Some [''old.txt''])
   \<and> map_option (curDirPath \<circ> snd)
       (Option.bind (navInFileManager silentRemote ''a/c'' deepCartmin)
          (navInFileManager promptRemote ''a/c'' \<circ> snd)) = Some ''a/c''
   \<and> map_option (curDirFiles \<circ> snd)
       (Option.bind (navInFileManager silentRemote ''a/c'' deepCartmin)
          (navInFileManager promptRemote ''a/c'' \<circ> snd)) = Some (Some [''cat.png'', ''dog.jpg''])"
proof -
  have ne: "curDirPath deepCartmin \<noteq> ''a/c''" by simp
  have ch: "destroyNav_search (curDirPath deepCartmin) ''a/c'' \<in>
      set (pathChain (curDirPath deepCartmin))"
    by (simp add: search_ab_ac pathChain_ab)
  have below: "''a/c'' \<noteq> destroyNav_search (curDirPath deepCartmin) ''a/c''"
    by (simp add: search_ab_ac)
  from nav_timeout_returns [OF deepCartmin_frame ne ch silentRemote_acknowledges
      silentRemote_response]
  obtain s1 where run: "navInFileManager silentRemote ''a/c'' deepCartmin =
      Some (Inl (Timeout 30000), s1)" by blast
  from nav_timeout_below [OF run deepCartmin_frame ne silentRemote_response refl below
      promptRemote_acknowledges promptRemote_response]
  obtain s2 where "curDirFiles s1 = Some [''old.txt'']" and "curDirPath s1 = ''a''"
    and "navInFileManager promptRemote ''a/c'' s1 = Some (Inr (), s2)"
    and "curDirPath s2 = ''a/c''" and "curDirFiles s2 = Some [''cat.png'', ''dog.jpg'']"
    by (auto simp: parentPath_ac deepCartmin_def)
  with run show ?thesis by simp
qed

text \<open>
  C6. When the listing wait of \<^verbatim>\<open>navigate(targetPath)\<close> exceeds its timeout of 30000 ms,
  the call is to fail with the timeout and to leave the cursor at the last ancestor of
  the target that was reached, so that a retry with the same target is safe. The code
  does not keep to this when the target is an ancestor of the cursor. Evaluated from the
  cursor \<^verbatim>\<open>a/b\<close>, with the listing of \<^verbatim>\<open>a/b\<close> cached, to the target \<^verbatim>\<open>a\<close> on a remote side
  whose listing never arrives: the call fails with the timeout of 30000 ms, but the
  cursor is already the target \<^verbatim>\<open>a\<close> itself, because \<^verbatim>\<open>destroyNav\<close> assigns it (line 227)
  before the listing wait starts, whereas lines 198 to 202 assign the listing and the
  cursor together, after the wait; the cached listing is still the one of \<^verbatim>\<open>a/b\<close>,
  while the field is documented as the list of the file names of the current directory
  (\<^verbatim>\<open>constructor.js\<close>, line 91); and the retry, on a remote side that would send the
  listing, returns at the cursor-equality check (line 175) with the state unchanged, so
  the listing of \<^verbatim>\<open>a\<close> is not fetched.
\<close>

theorem nav_timeout_upwards_stale_listing:
  "map_option fst (navInFileManager silentRemote ''a'' deepCartmin) = Some (Inl (Timeout 30000))
   \<and> map_option (curDirPath \<circ> snd) (navInFileManager silentRemote ''a'' deepCartmin) = Some ''a''
   \<and> map_option (curDirFiles \<circ> snd) (navInFileManager silentRemote ''a'' deepCartmin) =
       Some (Some [''old.txt''])
   \<and> Option.bind (navInFileManager silentRemote ''a'' deepCartmin)
        (navInFileManager promptRemote ''a'' \<circ> snd) =
      map_option (Pair (Inr ()) \<circ> snd) (navInFileManager silentRemote ''a'' deepCartmin)"
proof -
  have ne: "curDirPath deepCartmin \<noteq> ''a''" by simp
  have ch: "destroyNav_search (curDirPath deepCartmin) ''a'' \<in> set (pathChain (curDirPath deepCartmin))"
    by (simp add: search_ab_a pathChain_ab)
  from nav_timeout_returns [OF deepCartmin_frame ne ch silentRemote_acknowledges
      silentRemote_response]
  obtain s1 where run: "navInFileManager silentRemote ''a'' deepCartmin =
      Some (Inl (Timeout 30000), s1)" by blast
  from nav_timeout_state [OF run deepCartmin_frame ne silentRemote_response refl]
  have "fileManagerFrame s1" and "curDirFiles s1 = Some [''old.txt'']" and "curDirPath s1 = ''a''"
    by (simp_all add: search_ab_a deepCartmin_def)
  with run show ?thesis by (simp add: navInFileManager_def)
qed

section \<open>The cursor across sessions\<close>











section \<open>An ancestor that is only a substring\<close>

text \<open>
  The search of \<^verbatim>\<open>destroyNav\<close> tests with \<^verbatim>\<open>includes\<close>. From the cursor \<^verbatim>\<open>x/a\<close> to the
  target \<^verbatim>\<open>a/b\<close> it stops at \<^verbatim>\<open>a\<close>, which occurs in \<^verbatim>\<open>x/a\<close> but is none of its
  ancestors; the closing loop walks up from \<^verbatim>\<open>x/a\<close> to the top directory, never meets
  \<^verbatim>\<open>a\<close>, and goes on closing the top directory for ever.
\<close>

lemma nav_substring_ancestor_diverges:
  "navInFileManager promptRemote ''a/b'' (openedCartmin\<lparr>curDirPath := ''x/a''\<rparr>) = None"
proof -
  let ?s = "openedCartmin\<lparr>curDirPath := ''x/a''\<rparr>"
  have px: "parentPath ''x/a'' = ''x''" "parentPath ''x'' = []"
    by (simp_all add: parentPath_def substring_def Let_def)
  have chain: "pathChain ''x/a'' = [''x/a'', ''x'', []]"
    by (subst pathChain.simps, simp add: px, subst pathChain.simps, simp add: px pathChain_Nil)
  have search: "destroyNav_search ''x/a'' ''a/b'' = ''a''"
    by (subst destroyNav_search.simps, simp add: parentPath_ab, subst destroyNav_search.simps,
        simp)
  have "destroyNav ''a/b'' (allowXhr None True ?s) = None"
  proof (cases "destroyNav ''a/b'' (allowXhr None True ?s)")
    case (Some res)
    have "fileManagerFrame (allowXhr None True ?s)"
      by (simp add: allowXhr_def emit_def openedCartmin_frame)
    from destroyNav_Some [OF Some this] search chain show ?thesis
      by (simp add: allowXhr_def emit_def)
  qed simp
  then show ?thesis by (simp add: navInFileManager_def openedCartmin_eq)
qed

section \<open>What the gate lets through\<close>

lemma onRequest_gate_fields:
  "allowedXhrPostData (snd (onRequest fm req s)) = allowedXhrPostData s \<and>
   blockRepetitiveXhr (snd (onRequest fm req s)) = blockRepetitiveXhr s"
  by (simp add: onRequest_def Let_def)

lemma tracked_passOn: "tracked fm req \<Longrightarrow> passOn req = Continue"
  by (simp add: tracked_def passOn_def)

lemma onRequest_Continue:
  "tracked fm req \<Longrightarrow> fst (onRequest fm req s) = Continue \<Longrightarrow>
   strictEq (postData req) (allowedXhrPostData s) \<and>
   lastXhrPostData (snd (onRequest fm req s)) = allowedXhrPostData s"
  by (auto simp: onRequest_def Let_def split: if_splits)

lemma strictEq_Some: "strictEq a b \<longleftrightarrow> (\<exists>K. a = Some K \<and> b = Some K)"
  by (cases a; cases b) auto

lemma onRequests_Cons:
  "onRequests fm (r # rs) s = fst (onRequest fm r s) # onRequests fm rs (snd (onRequest fm r s))"
  by (simp add: split_beta)

lemma onRequests_length [simp]: "length (onRequests fm rs s) = length rs"
  by (induction rs arbitrary: s) (simp_all add: split_beta)

lemma onRequests_Continue:
  "\<forall>req\<in>set rs. tracked fm req \<Longrightarrow> i < length rs \<Longrightarrow> onRequests fm rs s ! i = Continue \<Longrightarrow>
   strictEq (postData (rs ! i)) (allowedXhrPostData s)"
proof (induction rs arbitrary: s i)
  case Nil
  then show ?case by simp
next
  case (Cons r rs)
  obtain v s' where step: "onRequest fm r s = (v, s')" by (cases "onRequest fm r s")
  with onRequest_gate_fields [of fm r s] have keep: "allowedXhrPostData s' = allowedXhrPostData s"
    by simp
  show ?case
  proof (cases i)
    case 0
    with Cons.prems step onRequest_Continue [of fm r s] show ?thesis by simp
  next
    case (Suc j)
    with Cons.prems step have "onRequests fm rs s' ! j = Continue" "j < length rs"
      "\<forall>req\<in>set rs. tracked fm req" by simp_all
    from Cons.IH [OF this(3) this(2) this(1)] keep Suc show ?thesis by simp
  qed
qed

lemma onRequest_repeat:
  "tracked fm req \<Longrightarrow> blockRepetitiveXhr s \<Longrightarrow> lastXhrPostData s = allowedXhrPostData s \<Longrightarrow>
   fst (onRequest fm req s) = RespondEmpty"
  by (auto simp: onRequest_def Let_def)

lemma onRequests_repeat:
  "\<forall>req\<in>set rs. tracked fm req \<Longrightarrow> blockRepetitiveXhr s \<Longrightarrow> Suc i < length rs \<Longrightarrow>
   onRequests fm rs s ! i = Continue \<Longrightarrow> onRequests fm rs s ! Suc i = RespondEmpty"
proof (induction rs arbitrary: s i)
  case Nil
  then show ?case by simp
next
  case (Cons r rs)
  obtain v s' where step: "onRequest fm r s = (v, s')" by (cases "onRequest fm r s")
  with onRequest_gate_fields [of fm r s]
  have keep: "allowedXhrPostData s' = allowedXhrPostData s" "blockRepetitiveXhr s'"
    using Cons.prems(2) by simp_all
  show ?case
  proof (cases i)
    case 0
    with Cons.prems step have v: "v = Continue" and "tracked fm r" by simp_all
    with onRequest_Continue [of fm r s] step keep
    have last: "lastXhrPostData s' = allowedXhrPostData s'" by simp
    from Cons.prems 0 obtain r' rs' where rs: "rs = r' # rs'" by (cases rs) auto
    with Cons.prems have "tracked fm r'" by simp
    from onRequest_repeat [OF this keep(2) last] rs step 0 show ?thesis
      by (simp add: onRequests_Cons del: onRequests.simps)
  next
    case (Suc j)
    with Cons.prems step have "onRequests fm rs s' ! j = Continue" "Suc j < length rs"
      "\<forall>req\<in>set rs. tracked fm req" by simp_all
    from Cons.IH [OF this(3) keep(2) this(2) this(1)] step Suc show ?thesis by simp
  qed
qed

lemma onRequests_disarmed:
  "\<forall>req\<in>set rs. tracked fm req \<Longrightarrow> allowedXhrPostData s = None \<Longrightarrow>
   onRequests fm rs s = replicate (length rs) RespondEmpty"
  by (induction rs arbitrary: s) (auto simp: onRequest_def)

lemma onRequest_first:
  "tracked fm req \<Longrightarrow> postData req = Some K \<Longrightarrow>
   fst (onRequest fm req (allowXhr (Some K) b s)) = Continue"
  by (simp add: onRequest_def allowXhr_def emit_def tracked_passOn)

text \<open>
  C3. For every sequence of tracked requests handled after \<^verbatim>\<open>allowXhr(a, b)\<close>: a request
  is forwarded only when the gate is armed with a payload \<open>K\<close> and the request carries
  \<open>K\<close>; the first request that carries the armed payload is forwarded; with duplicate
  blocking on, the request that follows a forwarded one is answered with an empty
  response (it either carries another payload or repeats the forwarded one); and after
  arming with \<^verbatim>\<open>null\<close> every request is answered with an empty response.
\<close>

theorem gate_forwards_only_armed_payload:
  assumes "\<forall>req\<in>set rs. tracked fm req"
  shows "(\<forall>i<length rs. onRequests fm rs (allowXhr a b s) ! i = Continue \<longrightarrow>
            (\<exists>K. a = Some K \<and> postData (rs ! i) = Some K))
       \<and> (\<forall>K. rs \<noteq> [] \<and> a = Some K \<and> postData (rs ! 0) = Some K \<longrightarrow>
            onRequests fm rs (allowXhr a b s) ! 0 = Continue)
       \<and> (\<forall>i. b \<and> Suc i < length rs \<and> onRequests fm rs (allowXhr a b s) ! i = Continue \<longrightarrow>
            onRequests fm rs (allowXhr a b s) ! Suc i = RespondEmpty)
       \<and> (a = None \<longrightarrow> onRequests fm rs (allowXhr a b s) = replicate (length rs) RespondEmpty)"
proof (intro conjI allI impI)
  fix i assume "i < length rs" "onRequests fm rs (allowXhr a b s) ! i = Continue"
  from onRequests_Continue [OF assms this]
  show "\<exists>K. a = Some K \<and> postData (rs ! i) = Some K"
    by (auto simp: strictEq_Some allowXhr_def emit_def)
next
  fix K assume h: "rs \<noteq> [] \<and> a = Some K \<and> postData (rs ! 0) = Some K"
  then obtain r rs' where rs: "rs = r # rs'" by (cases rs) auto
  with assms h have "tracked fm r" "postData r = Some K" by simp_all
  from onRequest_first [OF this, of b s] h rs
  show "onRequests fm rs (allowXhr a b s) ! 0 = Continue"
    by (simp add: onRequests_Cons del: onRequests.simps)
next
  fix i assume "b \<and> Suc i < length rs \<and> onRequests fm rs (allowXhr a b s) ! i = Continue"
  then have b and "Suc i < length rs" and "onRequests fm rs (allowXhr a b s) ! i = Continue"
    by blast+
  from \<open>b\<close> have "blockRepetitiveXhr (allowXhr a b s)" by (simp add: allowXhr_def emit_def)
  note this \<open>Suc i < length rs\<close> \<open>onRequests fm rs (allowXhr a b s) ! i = Continue\<close>
  from onRequests_repeat [OF assms this]
  show "onRequests fm rs (allowXhr a b s) ! Suc i = RespondEmpty" .
next
  assume "a = None"
  then have "allowedXhrPostData (allowXhr a b s) = None" by (simp add: allowXhr_def emit_def)
  from onRequests_disarmed [OF assms this]
  show "onRequests fm rs (allowXhr a b s) = replicate (length rs) RespondEmpty" .
qed

text \<open>Three requests, the first two with the armed payload: only the first is forwarded;
  with the gate disarmed, none is.\<close>

theorem gate_forwards_only_armed_payload_witness:
  "tracked ''filemanager/files'' (listingRequest ''directory=2024'')
   \<and> tracked ''filemanager/files'' (listingRequest ''directory=2024%2Fspring'')
   \<and> onRequests ''filemanager/files''
         [listingRequest ''directory=2024%2Fspring'', listingRequest ''directory=2024%2Fspring'',
          listingRequest ''directory=2024'']
         (allowXhr (Some ''directory=2024%2Fspring'') True openedCartmin)
       = [Continue, RespondEmpty, RespondEmpty]
   \<and> onRequests ''filemanager/files''
         [listingRequest ''directory=2024%2Fspring'', listingRequest ''directory=2024%2Fspring'',
          listingRequest ''directory=2024'']
         (allowXhr None True openedCartmin)
       = [RespondEmpty, RespondEmpty, RespondEmpty]"
proof -
  let ?rs = "[listingRequest ''directory=2024%2Fspring'', listingRequest ''directory=2024%2Fspring'',
          listingRequest ''directory=2024'']"
  have t1: "tracked ''filemanager/files'' (listingRequest ''directory=2024'')"
    by (simp add: tracked_def listingRequest_def)
  have t2: "tracked ''filemanager/files'' (listingRequest ''directory=2024%2Fspring'')"
    by (simp add: tracked_def listingRequest_def)
  from t1 t2 have h: "\<forall>req\<in>set ?rs. tracked ''filemanager/files'' req" by simp
  have run: "onRequests ''filemanager/files'' ?rs
      (allowXhr (Some ''directory=2024%2Fspring'') True openedCartmin)
       = [Continue, RespondEmpty, RespondEmpty]"
    using t1 t2
    by (simp add: onRequests_Cons onRequest_def allowXhr_def emit_def listingRequest_def
        passOn_def del: onRequests.simps(2))
  from gate_forwards_only_armed_payload [OF h, of None True openedCartmin]
  have "onRequests ''filemanager/files'' ?rs (allowXhr None True openedCartmin)
       = replicate (length ?rs) RespondEmpty" by blast
  with t1 t2 run show ?thesis by (simp add: numeral_3_eq_3)
qed


section \<open>The confirmed click\<close>

text \<open>A race is lost exactly when no click event comes before the deadline of 50 ms.\<close>

lemma isClickedPromise_lost:
  "\<not> isClickedPromise r n \<longleftrightarrow> (\<forall>t. clickDelay r n = Some t \<longrightarrow> 50 \<le> t)"
  by (auto simp: isClickedPromise_def split: option.splits)

lemma isClickedPromise_won:
  "clickDelay r n = Some t \<Longrightarrow> t < 50 \<Longrightarrow> isClickedPromise r n"
  by (simp add: isClickedPromise_def)

text \<open>
  C9. With a session open, for a directory other than the top one: each attempt of
  \<^verbatim>\<open>clickDir\<close> starts one race of \<^verbatim>\<open>isClickedPromise\<close>, a listener for one click event
  against a deadline of 50 ms, together with one click. When no click event comes before
  the deadline in the first two races, and one comes before the deadline in the third,
  the first two races resolve to false and the third to true, and \<^verbatim>\<open>clickDir\<close> returns
  after exactly three clicks: the log gains the step that isolates the element and
  three clicks with the given count, and three races have been run.
\<close>

theorem clickDir_acknowledged_on_third_attempt:
  assumes "fileManagerFrame s" and "path \<noteq> []"
    and "\<forall>t. clickDelay r (races s) = Some t \<longrightarrow> 50 \<le> t"
    and "\<forall>t. clickDelay r (Suc (races s)) = Some t \<longrightarrow> 50 \<le> t"
    and "clickDelay r (Suc (Suc (races s))) = Some t3" and "t3 < 50"
  shows "\<not> isClickedPromise r (races s)
     \<and> \<not> isClickedPromise r (Suc (races s))
     \<and> isClickedPromise r (Suc (Suc (races s)))
     \<and> clickDir r path clickCount s =
         Some (Inr (),
               s\<lparr>log := log s @
                    [ShowOnly (getDirSelector path),
                     Click (getDirSelector path) clickCount,
                     Click (getDirSelector path) clickCount,
                     Click (getDirSelector path) clickCount],
                  races := races s + 3\<rparr>)"
proof -
  let ?sel = "getDirSelector path"
  let ?click = "Click ?sel clickCount"
  let ?s0 = "emit [ShowOnly ?sel] s"
  let ?s1 = "(emit [?click] ?s0)\<lparr>races := Suc (races ?s0)\<rparr>"
  let ?s2 = "(emit [?click] ?s1)\<lparr>races := Suc (races ?s1)\<rparr>"
  let ?s3 = "(emit [?click] ?s2)\<lparr>races := Suc (races ?s2)\<rparr>"
  from assms(3) have lost1: "\<not> isClickedPromise r (races s)"
    by (simp only: isClickedPromise_lost)
  from assms(4) have lost2: "\<not> isClickedPromise r (Suc (races s))"
    by (simp only: isClickedPromise_lost)
  from isClickedPromise_won [OF assms(5,6)]
  have won3: "isClickedPromise r (Suc (Suc (races s)))" .
  have third: "clickDir_loop r ?sel clickCount ?s2 = Some ?s3"
    using won3 by (subst clickDir_loop.simps) (simp add: emit_def)
  have second: "clickDir_loop r ?sel clickCount ?s1 = Some ?s3"
    using lost2 third by (subst clickDir_loop.simps) (simp add: emit_def)
  have first: "clickDir_loop r ?sel clickCount ?s0 = Some ?s3"
    using lost1 second by (subst clickDir_loop.simps) (simp add: emit_def)
  have "clickDir r path clickCount s = Some (Inr (), ?s3)"
    using assms(1,2) first by (simp add: clickDir_def Let_def)
  then have "clickDir r path clickCount s =
         Some (Inr (),
               s\<lparr>log := log s @
                    [ShowOnly (getDirSelector path),
                     Click (getDirSelector path) clickCount,
                     Click (getDirSelector path) clickCount,
                     Click (getDirSelector path) clickCount],
                  races := races s + 3\<rparr>)"
    by (simp add: emit_def numeral_3_eq_3)
  with lost1 lost2 won3 show ?thesis by simp
qed

text \<open>The theorem at a remote side whose click event comes after 80 ms in the first race,
  never in the second, and after 10 ms in the third.\<close>

theorem clickDir_acknowledged_on_third_attempt_witness:
  "fileManagerFrame openedCartmin
   \<and> clickDelay thirdTimeRemote (races openedCartmin) = Some 80
   \<and> clickDelay thirdTimeRemote (Suc (races openedCartmin)) = None
   \<and> clickDelay thirdTimeRemote (Suc (Suc (races openedCartmin))) = Some 10
   \<and> clickDir thirdTimeRemote ''2024'' 2 openedCartmin =
       Some (Inr (),
             openedCartmin\<lparr>log := log openedCartmin @
                [ShowOnly (getDirSelector ''2024''),
                 Click (getDirSelector ''2024'') 2,
                 Click (getDirSelector ''2024'') 2,
                 Click (getDirSelector ''2024'') 2],
              races := races openedCartmin + 3\<rparr>)"
proof -
  have r0: "races openedCartmin = 0" by (simp add: openedCartmin_eq)
  have a: "''2024'' \<noteq> []" by simp
  have d1: "clickDelay thirdTimeRemote (races openedCartmin) = Some 80"
    by (simp add: r0 thirdTimeRemote_def)
  have d2: "clickDelay thirdTimeRemote (Suc (races openedCartmin)) = None"
    by (simp add: r0 thirdTimeRemote_def)
  have d3: "clickDelay thirdTimeRemote (Suc (Suc (races openedCartmin))) = Some 10"
    by (simp add: r0 thirdTimeRemote_def)
  have b: "\<forall>t. clickDelay thirdTimeRemote (races openedCartmin) = Some t \<longrightarrow> 50 \<le> t"
    by (simp add: d1)
  have c: "\<forall>t. clickDelay thirdTimeRemote (Suc (races openedCartmin)) = Some t \<longrightarrow> 50 \<le> t"
    by (simp add: d2)
  have e: "(10::nat) < 50" by simp
  from clickDir_acknowledged_on_third_attempt [OF openedCartmin_frame a b c d3 e, of 2]
  have "clickDir thirdTimeRemote ''2024'' 2 openedCartmin =
       Some (Inr (),
             openedCartmin\<lparr>log := log openedCartmin @
                [ShowOnly (getDirSelector ''2024''),
                 Click (getDirSelector ''2024'') 2,
                 Click (getDirSelector ''2024'') 2,
                 Click (getDirSelector ''2024'') 2],
              races := races openedCartmin + 3\<rparr>)"
    by (rule conjunct2 [THEN conjunct2, THEN conjunct2])
  with openedCartmin_frame d1 d2 d3 show ?thesis by simp
qed

section \<open>The payload that arms the gate\<close>

lemma replace_first_slash:
  "CHR ''/'' \<in> set path \<Longrightarrow>
   replace path ''/'' ''%2F'' =
     takeWhile (\<lambda>c. c \<noteq> CHR ''/'') path @ ''%2F'' @ tl (dropWhile (\<lambda>c. c \<noteq> CHR ''/'') path)"
  by (induction path) auto

lemma count_list_dropWhile:
  "count_list xs c = count_list (dropWhile (\<lambda>x. x \<noteq> c) xs) c"
  by (induction xs) auto

lemma count_list_tail: "2 \<le> count_list d c \<Longrightarrow> hd d = c \<Longrightarrow> c \<in> set (tl d)"
proof (cases d)
  case Nil
  assume "2 \<le> count_list d c"
  with Nil show ?thesis by simp
next
  case (Cons x t)
  assume "2 \<le> count_list d c" and "hd d = c"
  with Cons have "0 < count_list t c" by simp
  then have "c \<in> set t" using count_list_0_iff [of t c] by simp
  with Cons show ?thesis by simp
qed

lemma second_slash:
  assumes "2 \<le> count_list path CHR ''/''"
  shows "CHR ''/'' \<in> set path \<and> CHR ''/'' \<in> set (tl (dropWhile (\<lambda>c. c \<noteq> CHR ''/'') path))"
proof -
  have "0 < count_list path CHR ''/''" using assms by simp
  then have mem: "CHR ''/'' \<in> set path" using count_list_0_iff [of path "CHR ''/''"] by simp
  then have hd: "hd (dropWhile (\<lambda>c. c \<noteq> CHR ''/'') path) = CHR ''/''"
    using hd_dropWhile [of "\<lambda>c. c \<noteq> CHR ''/''" path] by auto
  have "2 \<le> count_list (dropWhile (\<lambda>c. c \<noteq> CHR ''/'') path) CHR ''/''"
    using assms count_list_dropWhile [of path "CHR ''/''"] by simp
  from count_list_tail [OF this hd] mem show ?thesis by simp
qed

text \<open>
  C10. When the path given to \<^verbatim>\<open>getDirFilesPromise\<close> contains two or more slashes, the
  payload that arms the gate is \<^verbatim>\<open>directory=\<close> followed by the path with only its first
  slash replaced by \<^verbatim>\<open>%2F\<close>: what follows the first slash is kept as it is, and still
  contains a slash.
\<close>

theorem armed_payload_first_slash_only:
  assumes "2 \<le> count_list path CHR ''/''"
  shows "allowedXhrPostData (snd (getDirFilesPromise r path timeout s)) =
           Some (''directory='' @ takeWhile (\<lambda>c. c \<noteq> CHR ''/'') path @ ''%2F'' @
                 tl (dropWhile (\<lambda>c. c \<noteq> CHR ''/'') path))
         \<and> CHR ''/'' \<in> set (tl (dropWhile (\<lambda>c. c \<noteq> CHR ''/'') path))"
  using second_slash [OF assms] replace_first_slash [of path]
  by (simp add: getDirFilesPromise_def allowXhr_def blockRepXhr_def emit_def Let_def split: option.split)



text \<open>For \<^verbatim>\<open>a/b/c\<close> the armed payload is \<^verbatim>\<open>directory=a%2Fb/c\<close>.\<close>

theorem armed_payload_first_slash_only_witness:
  "2 \<le> count_list ''a/b/c'' CHR ''/'' \<and>
   allowedXhrPostData (snd (getDirFilesPromise promptRemote ''a/b/c'' 30000 (newCartmin ''ok''))) =
     Some ''directory=a%2Fb/c''"
proof -
  have h: "2 \<le> count_list ''a/b/c'' CHR ''/''" by simp
  from armed_payload_first_slash_only [OF h, of promptRemote 30000 "newCartmin ''ok''"]
  show ?thesis by simp
qed


section \<open>Locating a file in the listing\<close>

lemma clear_dog: "clearFileName ''dog'' = Some ''dog''"
  by (simp add: matchesToEnd_def nameRun_def nameChar_def)
lemma clear_dog_jpg: "clearFileName ''dog.jpg'' = Some ''dog.jpg''"
  by (simp add: matchesToEnd_def nameRun_def nameChar_def)
lemma clear_do: "clearFileName ''do'' = Some ''do''"
  by (simp add: matchesToEnd_def nameRun_def nameChar_def)
lemma clear_frog: "clearFileName ''frog.png'' = Some ''frog.png''"
  by (simp add: matchesToEnd_def nameRun_def nameChar_def)

text \<open>
  C5, as the specification states it, fails for the name \<^verbatim>\<open>do\<close>: with the cached listing
  \<^verbatim>\<open>["cat.png", "dog.jpg"]\<close> and the same two entries rendered, \<^verbatim>\<open>do\<close> is found at
  index 1, because both the cached names and the rendered entries are compared with
  \<^verbatim>\<open>startsWith\<close>.
\<close>

theorem locate_bare_prefix_counterexample:
  "fst (getFileIndexInFileManager promptRemote ''do'' listedCartmin) = Inr 1"
  by (simp add: getFileIndexInFileManager_def clear_do listedCartmin_def promptRemote_def
      getFileIndexInFileManagerDOM_def del: clearFileName.simps)

text \<open>
  C5, amended. With the cached listing \<^verbatim>\<open>["cat.png", "dog.jpg"]\<close> and the same entries
  rendered, \<^verbatim>\<open>dog\<close>, \<^verbatim>\<open>dog.jpg\<close> and also the bare prefix \<^verbatim>\<open>do\<close> are found at index 1,
  each after waiting for a rendered entry; \<^verbatim>\<open>frog.png\<close> yields -1 from the cached listing
  alone, whatever the remote side, with no driver action at all.
\<close>

theorem locate_matches_by_prefix:
  assumes "curDirFiles s = Some [''cat.png'', ''dog.jpg'']"
    and "entries r = [''cat.png'', ''dog.jpg'']"
  shows "getFileIndexInFileManager r ''dog'' s =
           (Inr 1, emit [WaitForEntry ''dog'', ReadEntryIndex ''dog''] s)
       \<and> getFileIndexInFileManager r ''dog.jpg'' s =
           (Inr 1, emit [WaitForEntry ''dog.jpg'', ReadEntryIndex ''dog.jpg''] s)
       \<and> getFileIndexInFileManager r ''do'' s =
           (Inr 1, emit [WaitForEntry ''do'', ReadEntryIndex ''do''] s)
       \<and> getFileIndexInFileManager r' ''frog.png'' s = (Inr (- 1), s)"
  using assms
  by (simp add: getFileIndexInFileManager_def clear_dog clear_dog_jpg clear_do clear_frog
      getFileIndexInFileManagerDOM_def emit_def del: clearFileName.simps)

text \<open>The theorem at the example engine.\<close>

theorem locate_matches_by_prefix_witness:
  "getFileIndexInFileManager promptRemote ''dog.jpg'' listedCartmin =
           (Inr 1, emit [WaitForEntry ''dog.jpg'', ReadEntryIndex ''dog.jpg''] listedCartmin)
   \<and> getFileIndexInFileManager silentRemote ''frog.png'' listedCartmin = (Inr (- 1), listedCartmin)"
proof -
  have a: "curDirFiles listedCartmin = Some [''cat.png'', ''dog.jpg'']"
    by (simp add: listedCartmin_def)
  have b: "entries promptRemote = [''cat.png'', ''dog.jpg'']"
    by (simp add: promptRemote_def)
  from locate_matches_by_prefix [OF a b, of silentRemote] show ?thesis by simp
qed


section \<open>Uploading a batch of local files\<close>

lemma successMsg_emit [simp]: "successMsg (emit as s) = successMsg s"
  by (simp add: emit_def)

lemma chosenFiles_append [simp]: "chosenFiles (as @ bs) = chosenFiles as @ chosenFiles bs"
  by (induction as rule: chosenFiles.induct) simp_all

lemma uploadLoop_result:
  "fst (uploadLoop ex paths ds uploaded s) =
     (if length (attempted ex paths) \<le> length ds
      then Inr (uploaded @ map fst (filter (\<lambda>(p, msg). includesStr msg (successMsg s))
                                      (zip (attempted ex paths) ds)))
      else Inl (Timeout 30000))"
proof (induction ex paths ds uploaded s rule: uploadLoop.induct)
  case (1 ex ds uploaded s)
  show ?case by simp
next
  case (2 ex paths ds uploaded s)
  then show ?case by simp
next
  case (3 ex path paths ds uploaded s)
  show ?case
  proof (cases "ex path")
    case False
    with 3(1) show ?thesis by simp
  next
    case True
    show ?thesis
    proof (cases ds)
      case Nil
      with True show ?thesis by (simp add: closeBrowserDialogPromise_def)
    next
      case (Cons msg ds')
      let ?s' = "emit [AcceptDialog msg] (emit [ClickUploadBtn, ChooseFile path] s)"
      have dlg: "closeBrowserDialogPromise ds 30000 (emit [ClickUploadBtn, ChooseFile path] s) =
          (Inr (includesStr msg (successMsg s)), ds', ?s')"
        using Cons by (simp add: closeBrowserDialogPromise_def)
      from 3(2) [OF _ dlg [symmetric] refl refl] True
      have "fst (uploadLoop ex paths ds'
              (if includesStr msg (successMsg s) then uploaded @ [path] else uploaded) ?s') =
        (if length (attempted ex paths) \<le> length ds'
         then Inr ((if includesStr msg (successMsg s) then uploaded @ [path] else uploaded) @
                   map fst (filter (\<lambda>(p, msg). includesStr msg (successMsg s))
                                      (zip (attempted ex paths) ds')))
         else Inl (Timeout 30000))"
        by simp
      with True Cons dlg show ?thesis by simp
    qed
  qed
qed

lemma uploadLoop_chosen:
  "chosenFiles (log (snd (uploadLoop ex paths ds uploaded s))) =
     chosenFiles (log s) @ take (Suc (length ds)) (attempted ex paths)"
proof (induction ex paths ds uploaded s rule: uploadLoop.induct)
  case (1 ex ds uploaded s)
  show ?case by simp
next
  case (2 ex paths ds uploaded s)
  then show ?case by simp
next
  case (3 ex path paths ds uploaded s)
  show ?case
  proof (cases "ex path")
    case False
    with 3(1) show ?thesis by simp
  next
    case True
    show ?thesis
    proof (cases ds)
      case Nil
      with True show ?thesis by (simp add: closeBrowserDialogPromise_def emit_def)
    next
      case (Cons msg ds')
      let ?s' = "emit [AcceptDialog msg] (emit [ClickUploadBtn, ChooseFile path] s)"
      have dlg: "closeBrowserDialogPromise ds 30000 (emit [ClickUploadBtn, ChooseFile path] s) =
          (Inr (includesStr msg (successMsg s)), ds', ?s')"
        using Cons by (simp add: closeBrowserDialogPromise_def)
      from 3(2) [OF _ dlg [symmetric] refl refl] True
      have "chosenFiles (log (snd (uploadLoop ex paths ds'
              (if includesStr msg (successMsg s) then uploaded @ [path] else uploaded) ?s'))) =
        chosenFiles (log ?s') @ take (Suc (length ds')) (attempted ex paths)"
        by simp
      with True Cons dlg show ?thesis by (simp add: emit_def)
    qed
  qed
qed

text \<open>
  C8. With the file manager open, \<^verbatim>\<open>uploadFilesToFileManager\<close> hands to the file chooser
  only the strings among the paths that exist locally, one dialog wait per such file, and
  returns, in their original order, those whose dialog message contains the configured
  success message; when a dialog fails to appear the whole call is rejected with the
  timeout. In particular, for three paths of which the second does not exist and the
  other two are confirmed, the result is the first and the third path, and the log holds
  an upload attempt for these two only.
\<close>

theorem upload_skips_missing_file:
  assumes "fileManagerFrame s"
  shows "fst (uploadFilesToFileManager r paths s) =
           (if length (attempted (existsSync r) paths) \<le> length (dialogs r)
            then Inr (map fst (filter (\<lambda>(p, msg). includesStr msg (successMsg s))
                                 (zip (attempted (existsSync r) paths) (dialogs r))))
            else Inl (Timeout 30000))
       \<and> chosenFiles (log (snd (uploadFilesToFileManager r paths s))) =
           chosenFiles (log s) @ take (Suc (length (dialogs r))) (attempted (existsSync r) paths)
       \<and> (existsSync r a \<and> \<not> existsSync r m \<and> existsSync r b \<and>
            dialogs r = [da, db] \<and> includesStr da (successMsg s) \<and> includesStr db (successMsg s) \<longrightarrow>
            uploadFilesToFileManager r [JSString a, JSString m, JSString b] s =
              (Inr [a, b],
               emit [WaitForUploadBtn, ClickUploadBtn, ChooseFile a, AcceptDialog da,
                     ClickUploadBtn, ChooseFile b, AcceptDialog db] s))"
proof (intro conjI impI)
  show "fst (uploadFilesToFileManager r paths s) =
           (if length (attempted (existsSync r) paths) \<le> length (dialogs r)
            then Inr (map fst (filter (\<lambda>(p, msg). includesStr msg (successMsg s))
                                 (zip (attempted (existsSync r) paths) (dialogs r))))
            else Inl (Timeout 30000))"
    using assms uploadLoop_result [of "existsSync r" paths "dialogs r" "[]" "emit [WaitForUploadBtn] s"]
    by (simp add: uploadFilesToFileManager_def)
next
  show "chosenFiles (log (snd (uploadFilesToFileManager r paths s))) =
           chosenFiles (log s) @ take (Suc (length (dialogs r))) (attempted (existsSync r) paths)"
    using assms uploadLoop_chosen [of "existsSync r" paths "dialogs r" "[]" "emit [WaitForUploadBtn] s"]
    by (simp add: uploadFilesToFileManager_def emit_def)
next
  assume "existsSync r a \<and> \<not> existsSync r m \<and> existsSync r b \<and>
            dialogs r = [da, db] \<and> includesStr da (successMsg s) \<and> includesStr db (successMsg s)"
  with assms show "uploadFilesToFileManager r [JSString a, JSString m, JSString b] s =
              (Inr [a, b],
               emit [WaitForUploadBtn, ClickUploadBtn, ChooseFile a, AcceptDialog da,
                     ClickUploadBtn, ChooseFile b, AcceptDialog db] s)"
    by (simp add: uploadFilesToFileManager_def closeBrowserDialogPromise_def emit_def)
qed

text \<open>The paths \<^verbatim>\<open>/tmp/a.png\<close>, \<^verbatim>\<open>/tmp/missing.png\<close> and \<^verbatim>\<open>/tmp/b.png\<close>.\<close>

theorem upload_skips_missing_file_witness:
  "fileManagerFrame openedCartmin
   \<and> uploadFilesToFileManager uploadRemote
         [JSString ''/tmp/a.png'', JSString ''/tmp/missing.png'', JSString ''/tmp/b.png'']
         openedCartmin =
       (Inr [''/tmp/a.png'', ''/tmp/b.png''],
        emit [WaitForUploadBtn, ClickUploadBtn, ChooseFile ''/tmp/a.png'',
              AcceptDialog ''Success: a.png'', ClickUploadBtn, ChooseFile ''/tmp/b.png'',
              AcceptDialog ''Success: b.png''] openedCartmin)
   \<and> chosenFiles (log (snd (uploadFilesToFileManager uploadRemote
         [JSString ''/tmp/a.png'', JSString ''/tmp/missing.png'', JSString ''/tmp/b.png'']
         openedCartmin))) = [''/tmp/a.png'', ''/tmp/b.png'']"
proof -
  have frame: "fileManagerFrame openedCartmin"
    by (simp add: openedCartmin_eq)
  have env: "existsSync uploadRemote ''/tmp/a.png'' \<and> \<not> existsSync uploadRemote ''/tmp/missing.png''
      \<and> existsSync uploadRemote ''/tmp/b.png''
      \<and> dialogs uploadRemote = [''Success: a.png'', ''Success: b.png'']
      \<and> includesStr ''Success: a.png'' (successMsg openedCartmin)
      \<and> includesStr ''Success: b.png'' (successMsg openedCartmin)"
    by (simp add: uploadRemote_def promptRemote_def openedCartmin_eq)
  have logs: "chosenFiles (log openedCartmin) = []"
    by (simp add: openedCartmin_eq)
  have att: "attempted (existsSync uploadRemote)
      [JSString ''/tmp/a.png'', JSString ''/tmp/missing.png'', JSString ''/tmp/b.png''] =
      [''/tmp/a.png'', ''/tmp/b.png'']"
    by (simp add: uploadRemote_def promptRemote_def)
  from upload_skips_missing_file [OF frame, of uploadRemote
      "[JSString ''/tmp/a.png'', JSString ''/tmp/missing.png'', JSString ''/tmp/b.png'']"
      "''/tmp/a.png''" "''/tmp/missing.png''" "''/tmp/b.png''" "''Success: a.png''"
      "''Success: b.png''"] env frame logs att
  show ?thesis by (simp add: emit_def)
qed

end
